theory Spec2Isabelle
  imports Main
begin

section \<open>Data model\<close>

text \<open>
  The agents module (\<^verbatim>\<open>agents.py\<close>) searches a game tree of Connect Four positions.
  It imports the class \<^verbatim>\<open>State\<close> from the module \<^verbatim>\<open>connect_four\<close>; of that class the
  search and the heuristics read the attributes below. Marks and roles are Python strings
  (\<^verbatim>\<open>'x'\<close>, \<^verbatim>\<open>'o'\<close>, \<^verbatim>\<open>'.'\<close> for an empty cell, \<^verbatim>\<open>''\<close> for "no winner"); the board is a list
  of columns, each a list of cells, read as \<^verbatim>\<open>board[col][row]\<close>.
\<close>

record State =
  board :: "string list list"
  num_cols :: int
  num_rows :: int
  turn :: string
  is_terminal :: bool
  winner :: string

text \<open>
  The mark at column \<open>c\<close> and row \<open>r\<close> of a board that has such a cell; the heuristics
  read cells with \<open>cell\<close> below, which raises where the board has none.
\<close>

definition mark :: "State \<Rightarrow> int \<Rightarrow> int \<Rightarrow> string" where
  "mark st c r = board st ! nat c ! nat r"

text \<open>The exceptions that the modelled code can raise.\<close>

datatype error = IndexError | KeyError | ValueError

text \<open>
  Node values are Python numbers: the integers that the heuristics return, and the floats
  \<^verbatim>\<open>float('-inf')\<close> and \<^verbatim>\<open>float('inf')\<close> with which \<^verbatim>\<open>minimax\<close> starts its running
  maximum and minimum.
\<close>

datatype number = NegInf | Fin int | PosInf

instantiation number :: linorder
begin

fun less_eq_number :: "number \<Rightarrow> number \<Rightarrow> bool" where
  "less_eq_number NegInf y = True"
| "less_eq_number (Fin a) NegInf = False"
| "less_eq_number (Fin a) (Fin b) = (a \<le> b)"
| "less_eq_number (Fin a) PosInf = True"
| "less_eq_number PosInf NegInf = False"
| "less_eq_number PosInf (Fin b) = False"
| "less_eq_number PosInf PosInf = True"

definition less_number :: "number \<Rightarrow> number \<Rightarrow> bool" where
  "less_number x y = (x \<le> y \<and> \<not> y \<le> x)"

instance
proof
  fix x y z :: number
  show "(x < y) = (x \<le> y \<and> \<not> y \<le> x)"
    by (simp add: less_number_def)
  show "x \<le> x"
    by (cases x) simp_all
  show "x \<le> y \<Longrightarrow> y \<le> z \<Longrightarrow> x \<le> z"
    by (cases x; cases y; cases z) simp_all
  show "x \<le> y \<Longrightarrow> y \<le> x \<Longrightarrow> x = y"
    by (cases x; cases y) simp_all
  show "x \<le> y \<or> y \<le> x"
    by (cases x; cases y) auto
qed

end

text \<open>
  Class \<^verbatim>\<open>MinimaxNode\<close>: a state, a value and the dictionary of successor nodes, keyed by
  move. A Python dictionary keeps its keys in insertion order, so it is an association
  list with distinct keys.
\<close>

datatype MinimaxNode =
  Node (nstate: State) (nvalue: number) (successors: "(int \<times> MinimaxNode) list")

text \<open>\<^verbatim>\<open>MinimaxNode.__init__\<close>: value 0, no successors.\<close>

definition MinimaxNode_init :: "State \<Rightarrow> MinimaxNode" where
  "MinimaxNode_init st = Node st (Fin 0) []"

text \<open>
  \<^verbatim>\<open>d[k] = v\<close> on a dictionary: an existing key keeps its place and gets the new value, a
  new key goes to the end.
\<close>

fun dict_set :: "('k \<times> 'v) list \<Rightarrow> 'k \<Rightarrow> 'v \<Rightarrow> ('k \<times> 'v) list" where
  "dict_set [] k v = [(k, v)]"
| "dict_set ((k', v') # kvs) k v =
     (if k' = k then (k, v) # kvs else (k', v') # dict_set kvs k v)"

section \<open>The search: \<^verbatim>\<open>minimax\<close>\<close>

text \<open>
  The two methods of \<^verbatim>\<open>State\<close> that the search calls, \<^verbatim>\<open>get_legal_moves\<close> and
  \<^verbatim>\<open>advance_state\<close>, are parameters of the model (\<open>glm\<close> and \<open>adv\<close>); they are
  taken to return normally, \<^verbatim>\<open>advance_state\<close> being called with listed moves only. The
  heuristic function is a parameter too, and may raise. \<^verbatim>\<open>deepcopy\<close> followed by the
  in-place \<^verbatim>\<open>advance_state\<close> is, on values, the application of \<open>adv\<close>; the version
  with an explicit store is \<open>minimax_heap\<close> below.
\<close>

type_synonym heuristic = "State \<Rightarrow> string \<Rightarrow> error + number"

text \<open>
  The loop \<^verbatim>\<open>for move in moves\<close> (lines 65 to 68): every move gets a fresh node around
  the advanced copy of the state.
\<close>

fun set_successors ::
  "(State \<Rightarrow> int \<Rightarrow> State) \<Rightarrow> State \<Rightarrow> int list \<Rightarrow> (int \<times> MinimaxNode) list
    \<Rightarrow> (int \<times> MinimaxNode) list" where
  "set_successors adv st [] succs = succs"
| "set_successors adv st (move # moves) succs =
     set_successors adv st moves (dict_set succs move (MinimaxNode_init (adv st move)))"

text \<open>
  The loops \<^verbatim>\<open>for child in node.successors.keys()\<close> (lines 72, 73 and 77, 78): \<open>search\<close>
  is the recursive call, which returns the child's value and leaves the child evaluated;
  \<open>opr\<close> is \<^verbatim>\<open>max\<close> or \<^verbatim>\<open>min\<close>; \<open>acc\<close> is \<^verbatim>\<open>node.value\<close>. \<open>None\<close> is a call that does not
  return, \<open>Some (Inl e)\<close> an exception that ends the whole search.
\<close>

fun eval_children ::
  "(MinimaxNode \<Rightarrow> (error + number \<times> MinimaxNode) option) \<Rightarrow> (number \<Rightarrow> number \<Rightarrow> number)
    \<Rightarrow> number \<Rightarrow> (int \<times> MinimaxNode) list
    \<Rightarrow> (error + number \<times> (int \<times> MinimaxNode) list) option" where
  "eval_children search opr acc [] = Some (Inr (acc, []))"
| "eval_children search opr acc ((move, child) # rest) =
     (case search child of
        None \<Rightarrow> None
      | Some (Inl e) \<Rightarrow> Some (Inl e)
      | Some (Inr (v, child')) \<Rightarrow>
          (case eval_children search opr (opr acc v) rest of
             None \<Rightarrow> None
           | Some (Inl e) \<Rightarrow> Some (Inl e)
           | Some (Inr (acc', rest')) \<Rightarrow> Some (Inr (acc', (move, child') # rest'))))"

text \<open>
  \<^verbatim>\<open>minimax(node, depth, max_role, heuristic_fn)\<close>. The depth is a Python integer and is
  only compared with 0, so a negative depth is never a base case and the recursion has
  no bound of its own: the first argument is the number of nested calls allowed, and
  \<open>None\<close> means that it did not suffice. The result is the returned value together with
  the node as the call leaves it.
\<close>

fun minimax ::
  "nat \<Rightarrow> (State \<Rightarrow> int list) \<Rightarrow> (State \<Rightarrow> int \<Rightarrow> State) \<Rightarrow> MinimaxNode \<Rightarrow> int \<Rightarrow> string
    \<Rightarrow> heuristic \<Rightarrow> (error + number \<times> MinimaxNode) option" where
  "minimax 0 glm adv node depth max_role heuristic_fn = None"
| "minimax (Suc fuel) glm adv node depth max_role heuristic_fn =
     (if depth = 0 \<or> is_terminal (nstate node) then
        (case heuristic_fn (nstate node) max_role of
           Inl e \<Rightarrow> Some (Inl e)
         | Inr v \<Rightarrow> Some (Inr (v, Node (nstate node) v (successors node))))
      else
        (let succs = set_successors adv (nstate node) (glm (nstate node)) (successors node);
             search = (\<lambda>child. minimax fuel glm adv child (depth - 1) max_role heuristic_fn)
         in if turn (nstate node) = max_role then
              (case eval_children search max NegInf succs of
                 None \<Rightarrow> None
               | Some (Inl e) \<Rightarrow> Some (Inl e)
               | Some (Inr (v, succs')) \<Rightarrow> Some (Inr (v, Node (nstate node) v succs')))
            else
              (case eval_children search min PosInf succs of
                 None \<Rightarrow> None
               | Some (Inl e) \<Rightarrow> Some (Inl e)
               | Some (Inr (v, succs')) \<Rightarrow> Some (Inr (v, Node (nstate node) v succs')))))"

section \<open>The heuristics\<close>

text \<open>
  \<^verbatim>\<open>xs[i]\<close> on a Python list: a negative index counts from the end, an index out of
  range raises \<^verbatim>\<open>IndexError\<close>. \<open>cell st c r\<close> is \<^verbatim>\<open>state.board[c][r]\<close>.
\<close>

definition py_index :: "'a list \<Rightarrow> int \<Rightarrow> error + 'a" where
  "py_index xs i =
     (if 0 \<le> i \<and> i < int (length xs) then Inr (xs ! nat i)
      else if i < 0 \<and> - int (length xs) \<le> i then Inr (xs ! nat (int (length xs) + i))
      else Inl IndexError)"

definition cell :: "State \<Rightarrow> int \<Rightarrow> int \<Rightarrow> error + string" where
  "cell st c r = (case py_index (board st) c of Inl e \<Rightarrow> Inl e | Inr column \<Rightarrow> py_index column r)"

text \<open>
  Modelled from the spec: the method \<^verbatim>\<open>State.coords_legal\<close> of the module
  \<^verbatim>\<open>connect_four\<close>, which is not part of the sources. The specification calls it a bounds
  predicate for the direction-scanning heuristics; it is taken to be the test that
  \<^verbatim>\<open>evaluate_position\<close> writes out (line 260):
  \<^verbatim>\<open>0 <= c < state.num_cols and 0 <= r < state.num_rows\<close>.
\<close>

definition coords_legal :: "State \<Rightarrow> int \<Rightarrow> int \<Rightarrow> bool" where
  "coords_legal st c r = (0 \<le> c \<and> c < num_cols st \<and> 0 \<le> r \<and> r < num_rows st)"

text \<open>\<^verbatim>\<open>range(n)\<close>, and a counting loop whose body may raise.\<close>

definition py_range :: "int \<Rightarrow> int list" where
  "py_range n = map int [0..<nat n]"

fun for_loop :: "'i list \<Rightarrow> ('i \<Rightarrow> 'a \<Rightarrow> error + 'a) \<Rightarrow> 'a \<Rightarrow> error + 'a" where
  "for_loop [] body s = Inr s"
| "for_loop (x # xs) body s =
     (case body x s of Inl e \<Rightarrow> Inl e | Inr s' \<Rightarrow> for_loop xs body s')"

definition col_dirs :: "int list" where
  "col_dirs = [1, 1, 0, - 1]"

definition row_dirs :: "int list" where
  "row_dirs = [0, 1, 1, 1]"

subsection \<open>\<^verbatim>\<open>zero_heur\<close>\<close>

definition zero_heur :: heuristic where
  "zero_heur st max_role =
     (if is_terminal st then
        (if winner st = '''' then Inr (Fin 0)
         else if winner st = max_role then Inr (Fin 100)
         else Inr (Fin (- 100)))
      else Inr (Fin 0))"

subsection \<open>\<^verbatim>\<open>three_line_heur\<close>\<close>

text \<open>
  The body of the loop over \<^verbatim>\<open>dir\<close> (lines 119 to 126); \<^verbatim>\<open>and\<close> evaluates its second
  operand only when the first is true.
\<close>

definition three_line_dir ::
  "State \<Rightarrow> string \<Rightarrow> int \<Rightarrow> int \<Rightarrow> string \<Rightarrow> nat \<Rightarrow> int \<Rightarrow> error + int" where
  "three_line_dir st max_role i j piece dir result =
     (let farthest_col = i + 2 * col_dirs ! dir;
          farthest_row = j + 2 * row_dirs ! dir
      in if coords_legal st farthest_col farthest_row then
           (case cell st (i + col_dirs ! dir) (j + row_dirs ! dir) of
              Inl e \<Rightarrow> Inl e
            | Inr a \<Rightarrow>
                if piece = a then
                  (case cell st farthest_col farthest_row of
                     Inl e \<Rightarrow> Inl e
                   | Inr b \<Rightarrow>
                       if piece = b then
                         (if piece = max_role then Inr (result + 1) else Inr (result - 1))
                       else Inr result)
                else Inr result)
         else Inr result)"

text \<open>The body of the loop over \<^verbatim>\<open>j\<close> (lines 115 to 127).\<close>

definition three_line_cell :: "State \<Rightarrow> string \<Rightarrow> int \<Rightarrow> int \<Rightarrow> int \<Rightarrow> error + int" where
  "three_line_cell st max_role i j result =
     (case cell st i j of
        Inl e \<Rightarrow> Inl e
      | Inr piece \<Rightarrow>
          if piece \<noteq> ''.'' then
            for_loop [0..<length col_dirs] (three_line_dir st max_role i j piece) result
          else Inr result)"

definition three_line_heur :: heuristic where
  "three_line_heur st max_role =
     (if is_terminal st then
        (if winner st = '''' then Inr (Fin 0)
         else if winner st = max_role then Inr (Fin 100)
         else Inr (Fin (- 100)))
      else
        (case for_loop (py_range (num_cols st))
                (\<lambda>i. for_loop (py_range (num_rows st)) (three_line_cell st max_role i)) 0 of
           Inl e \<Rightarrow> Inl e
         | Inr result \<Rightarrow> Inr (Fin result)))"

subsection \<open>\<^verbatim>\<open>my_heuristic\<close>\<close>

text \<open>
  The loop \<^verbatim>\<open>for dist in range(1, 4)\<close> (lines 203 to 215) with its three \<^verbatim>\<open>break\<close>s; the
  state of the loop is \<^verbatim>\<open>(in_a_row, open_ends)\<close>.
\<close>

fun scan_run ::
  "State \<Rightarrow> int \<Rightarrow> int \<Rightarrow> string \<Rightarrow> int \<Rightarrow> int \<Rightarrow> int list \<Rightarrow> nat \<times> nat \<Rightarrow> error + nat \<times> nat" where
  "scan_run st i j piece dc dr [] (in_a_row, open_ends) = Inr (in_a_row, open_ends)"
| "scan_run st i j piece dc dr (dist # dists) (in_a_row, open_ends) =
     (let next_col = i + dist * dc;
          next_row = j + dist * dr
      in if coords_legal st next_col next_row then
           (case cell st next_col next_row of
              Inl e \<Rightarrow> Inl e
            | Inr c \<Rightarrow>
                if c = piece then scan_run st i j piece dc dr dists (in_a_row + 1, open_ends)
                else if c = ''.'' then Inr (in_a_row, open_ends + 1)
                else Inr (in_a_row, open_ends))
         else Inr (in_a_row, open_ends))"

text \<open>The scoring of one direction (lines 224 to 244).\<close>

definition score_run :: "string \<Rightarrow> string \<Rightarrow> nat \<Rightarrow> nat \<Rightarrow> int \<Rightarrow> int" where
  "score_run piece max_role in_a_row open_ends result =
     (if in_a_row = 1 \<and> open_ends \<ge> 1 then
        (if piece = max_role then result + 5 else result - 5)
      else if in_a_row = 2 then
        (if open_ends \<ge> 1 then
           (if piece = max_role then result + 10 else result - 10)
         else
           (if piece = max_role then result + 7 else result - 7))
      else if in_a_row = 0 \<and> open_ends = 2 then
        (if piece = max_role then result + 3 else result - 3)
      else result)"

text \<open>The body of the loop over \<^verbatim>\<open>dir\<close> (lines 201 to 244).\<close>

definition my_heuristic_dir ::
  "State \<Rightarrow> string \<Rightarrow> int \<Rightarrow> int \<Rightarrow> string \<Rightarrow> nat \<Rightarrow> int \<Rightarrow> error + int" where
  "my_heuristic_dir st max_role i j piece dir result =
     (case scan_run st i j piece (col_dirs ! dir) (row_dirs ! dir) [1, 2, 3] (0, 0) of
        Inl e \<Rightarrow> Inl e
      | Inr (in_a_row, open_ends) \<Rightarrow>
          (let opposite_col = i - col_dirs ! dir;
               opposite_row = j - row_dirs ! dir
           in if coords_legal st opposite_col opposite_row then
                (case cell st opposite_col opposite_row of
                   Inl e \<Rightarrow> Inl e
                 | Inr c \<Rightarrow>
                     Inr (score_run piece max_role in_a_row
                            (if c = ''.'' then open_ends + 1 else open_ends) result))
              else Inr (score_run piece max_role in_a_row open_ends result)))"

text \<open>The body of the loop over \<^verbatim>\<open>j\<close> (lines 191 to 244), with the centre column bonus.\<close>

definition my_heuristic_cell :: "State \<Rightarrow> string \<Rightarrow> int \<Rightarrow> int \<Rightarrow> int \<Rightarrow> error + int" where
  "my_heuristic_cell st max_role i j result =
     (case cell st i j of
        Inl e \<Rightarrow> Inl e
      | Inr piece \<Rightarrow>
          if piece \<noteq> ''.'' then
            for_loop [0..<length col_dirs] (my_heuristic_dir st max_role i j piece)
              (if i = num_cols st div 2 then
                 (if piece = max_role then result + 2 else result - 2)
               else result)
          else Inr result)"

definition my_heuristic :: heuristic where
  "my_heuristic st max_role =
     (if is_terminal st then
        (if winner st = '''' then Inr (Fin 0)
         else if winner st = max_role then Inr (Fin 100)
         else Inr (Fin (- 100)))
      else
        (case for_loop (py_range (num_cols st))
                (\<lambda>i. for_loop (py_range (num_rows st)) (my_heuristic_cell st max_role i)) 0 of
           Inl e \<Rightarrow> Inl e
         | Inr result \<Rightarrow> Inr (Fin result)))"

section \<open>The agent: \<^verbatim>\<open>MinimaxPlayer\<close>\<close>

text \<open>The attributes that \<^verbatim>\<open>MinimaxPlayer.__init__\<close> and \<^verbatim>\<open>initialize\<close> store.\<close>

record MinimaxPlayer =
  self_role :: string
  self_depth :: int
  self_heur :: heuristic
  self_display :: bool

text \<open>\<^verbatim>\<open>d[k]\<close> on a dictionary raises \<^verbatim>\<open>KeyError\<close> for a missing key.\<close>

definition dict_get :: "('k \<times> 'v) list \<Rightarrow> 'k \<Rightarrow> error + 'v" where
  "dict_get kvs k = (case map_of kvs k of None \<Rightarrow> Inl KeyError | Some v \<Rightarrow> Inr v)"

text \<open>
  \<^verbatim>\<open>randint(a, b)\<close> raises \<^verbatim>\<open>ValueError\<close> on an empty range and returns an integer of
  \<open>[a, b]\<close> otherwise. Which one is decided by the random source, the argument \<open>rnd\<close>:
  every integer of the range is returned for some \<open>rnd\<close>.
\<close>

definition randint :: "nat \<Rightarrow> int \<Rightarrow> int \<Rightarrow> error + int" where
  "randint rnd a b = (if b < a then Inl ValueError else Inr (a + int rnd mod (b - a + 1)))"

text \<open>
  The loop \<^verbatim>\<open>for move in root.successors.keys()\<close> of \<^verbatim>\<open>play\<close> (lines 319 to 323);
  \<^verbatim>\<open>or\<close> evaluates its second operand only when the list is not empty.
\<close>

fun best_moves_loop ::
  "(int \<times> MinimaxNode) list \<Rightarrow> int list \<Rightarrow> int list \<Rightarrow> error + int list" where
  "best_moves_loop succs [] best_moves = Inr best_moves"
| "best_moves_loop succs (move # moves) best_moves =
     (if length best_moves = 0 then best_moves_loop succs moves [move]
      else
        (case dict_get succs move of
           Inl e \<Rightarrow> Inl e
         | Inr child \<Rightarrow>
             (case py_index best_moves 0 of
                Inl e \<Rightarrow> Inl e
              | Inr first \<Rightarrow>
                  (case dict_get succs first of
                     Inl e \<Rightarrow> Inl e
                   | Inr best \<Rightarrow>
                       if nvalue child > nvalue best then best_moves_loop succs moves [move]
                       else if nvalue child = nvalue best then
                         best_moves_loop succs moves (best_moves @ [move])
                       else best_moves_loop succs moves best_moves))))"

text \<open>
  \<^verbatim>\<open>MinimaxPlayer.play(state)\<close>. Printing the board (\<^verbatim>\<open>state.display()\<close>) has no effect on
  the result and is left out. As for \<open>minimax\<close>, \<open>None\<close> is a search that does not
  return within \<open>fuel\<close> nested calls.
\<close>

definition play ::
  "nat \<Rightarrow> (State \<Rightarrow> int list) \<Rightarrow> (State \<Rightarrow> int \<Rightarrow> State) \<Rightarrow> MinimaxPlayer \<Rightarrow> nat \<Rightarrow> State
    \<Rightarrow> (error + int) option" where
  "play fuel glm adv self rnd st =
     (case minimax fuel glm adv (MinimaxNode_init st) (self_depth self) (self_role self)
             (self_heur self) of
        None \<Rightarrow> None
      | Some (Inl e) \<Rightarrow> Some (Inl e)
      | Some (Inr (v, root)) \<Rightarrow>
          Some (case best_moves_loop (successors root) (map fst (successors root)) [] of
                  Inl e \<Rightarrow> Inl e
                | Inr best_moves \<Rightarrow>
                    (case randint rnd 0 (int (length best_moves) - 1) of
                       Inl e \<Rightarrow> Inl e
                     | Inr k \<Rightarrow> py_index best_moves k)))"

section \<open>The search on a store of state objects\<close>

text \<open>
  In Python a \<^verbatim>\<open>State\<close> is a mutable object, a node holds a reference to one, and
  \<^verbatim>\<open>advance_state\<close> changes its object in place. To say what a call of \<open>minimax\<close>
  leaves unchanged, the state objects are kept in a store: an address is an index into
  the list of the objects allocated so far. \<^verbatim>\<open>deepcopy\<close> allocates a new object with the
  contents of the old one; \<^verbatim>\<open>advance_state\<close> overwrites the object at its address
  (\<open>adv\<close> is what the method does to the contents); reading an attribute looks the
  address up. Nodes are still values: a node is owned by its parent alone.
\<close>

type_synonym addr = nat

type_synonym store = "State list"

datatype HeapNode =
  HeapNode (hstate: addr) (hvalue: number) (hsuccessors: "(int \<times> HeapNode) list")

definition HeapNode_init :: "addr \<Rightarrow> HeapNode" where
  "HeapNode_init a = HeapNode a (Fin 0) []"

definition deepcopy :: "store \<Rightarrow> addr \<Rightarrow> addr \<times> store" where
  "deepcopy s a = (length s, s @ [s ! a])"

definition advance_in_place :: "(State \<Rightarrow> int \<Rightarrow> State) \<Rightarrow> store \<Rightarrow> addr \<Rightarrow> int \<Rightarrow> store" where
  "advance_in_place adv s a move = s[a := adv (s ! a) move]"

text \<open>Lines 65 to 68, with the store: copy, advance the copy, wrap the copy.\<close>

fun set_successors_heap ::
  "(State \<Rightarrow> int \<Rightarrow> State) \<Rightarrow> store \<Rightarrow> addr \<Rightarrow> int list \<Rightarrow> (int \<times> HeapNode) list
    \<Rightarrow> (int \<times> HeapNode) list \<times> store" where
  "set_successors_heap adv s a [] succs = (succs, s)"
| "set_successors_heap adv s a (move # moves) succs =
     (let (state_cpy, s1) = deepcopy s a;
          s2 = advance_in_place adv s1 state_cpy move
      in set_successors_heap adv s2 a moves (dict_set succs move (HeapNode_init state_cpy)))"

fun eval_children_heap ::
  "(store \<Rightarrow> HeapNode \<Rightarrow> (error + number \<times> HeapNode \<times> store) option)
    \<Rightarrow> (number \<Rightarrow> number \<Rightarrow> number) \<Rightarrow> number \<Rightarrow> (int \<times> HeapNode) list \<Rightarrow> store
    \<Rightarrow> (error + number \<times> (int \<times> HeapNode) list \<times> store) option" where
  "eval_children_heap search opr acc [] s = Some (Inr (acc, [], s))"
| "eval_children_heap search opr acc ((move, child) # rest) s =
     (case search s child of
        None \<Rightarrow> None
      | Some (Inl e) \<Rightarrow> Some (Inl e)
      | Some (Inr (v, child', s1)) \<Rightarrow>
          (case eval_children_heap search opr (opr acc v) rest s1 of
             None \<Rightarrow> None
           | Some (Inl e) \<Rightarrow> Some (Inl e)
           | Some (Inr (acc', rest', s2)) \<Rightarrow> Some (Inr (acc', (move, child') # rest', s2))))"

text \<open>
  \<open>minimax\<close> with the store as an argument and, when the call returns, as a third
  result. The heuristic and \<^verbatim>\<open>get_legal_moves\<close> read the object of the node.
\<close>

fun minimax_heap ::
  "nat \<Rightarrow> (State \<Rightarrow> int list) \<Rightarrow> (State \<Rightarrow> int \<Rightarrow> State) \<Rightarrow> store \<Rightarrow> HeapNode \<Rightarrow> int \<Rightarrow> string
    \<Rightarrow> heuristic \<Rightarrow> (error + number \<times> HeapNode \<times> store) option" where
  "minimax_heap 0 glm adv s node depth max_role heuristic_fn = None"
| "minimax_heap (Suc fuel) glm adv s node depth max_role heuristic_fn =
     (if depth = 0 \<or> is_terminal (s ! hstate node) then
        (case heuristic_fn (s ! hstate node) max_role of
           Inl e \<Rightarrow> Some (Inl e)
         | Inr v \<Rightarrow> Some (Inr (v, HeapNode (hstate node) v (hsuccessors node), s)))
      else
        (let (succs, s1) = set_successors_heap adv s (hstate node) (glm (s ! hstate node))
                             (hsuccessors node);
             search = (\<lambda>s' child. minimax_heap fuel glm adv s' child (depth - 1) max_role
                                     heuristic_fn)
         in if turn (s1 ! hstate node) = max_role then
              (case eval_children_heap search max NegInf succs s1 of
                 None \<Rightarrow> None
               | Some (Inl e) \<Rightarrow> Some (Inl e)
               | Some (Inr (v, succs', s2)) \<Rightarrow> Some (Inr (v, HeapNode (hstate node) v succs', s2)))
            else
              (case eval_children_heap search min PosInf succs s1 of
                 None \<Rightarrow> None
               | Some (Inl e) \<Rightarrow> Some (Inl e)
               | Some (Inr (v, succs', s2)) \<Rightarrow> Some (Inr (v, HeapNode (hstate node) v succs', s2)))))"

section \<open>The game: Connect Four\<close>

text \<open>
  The class \<^verbatim>\<open>State\<close> of the module \<^verbatim>\<open>connect_four\<close> is not part of the sources. The
  theorems about \<open>minimax\<close> and \<open>play\<close> hold for any \<^verbatim>\<open>get_legal_moves\<close> and
  \<^verbatim>\<open>advance_state\<close>; the definitions of this section are the game as the specification
  describes it, and give the concrete positions at which the theorems are
  instantiated.
\<close>

text \<open>
  Modelled from the spec: the position before the first move, an empty grid with role
  \<open>x\<close> to move.
\<close>

definition initial_state :: "int \<Rightarrow> int \<Rightarrow> State" where
  "initial_state cols rows =
     \<lparr>board = replicate (nat cols) (replicate (nat rows) ''.''),
      num_cols = cols, num_rows = rows, turn = ''x'', is_terminal = False, winner = ''''\<rparr>"

text \<open>
  Modelled from the spec: \<^verbatim>\<open>State.get_legal_moves\<close>, the columns that are not full, in
  ascending order.
\<close>

definition get_legal_moves :: "State \<Rightarrow> int list" where
  "get_legal_moves st =
     filter (\<lambda>c. ''.'' \<in> set (board st ! nat c)) (py_range (num_cols st))"

text \<open>
  Modelled from the spec: a role has won when four of its marks are in a line, to the
  right, up-right, up or up-left of some cell.
\<close>

definition four_in_line :: "State \<Rightarrow> string \<Rightarrow> bool" where
  "four_in_line st piece =
     (\<exists>i \<in> set (py_range (num_cols st)). \<exists>j \<in> set (py_range (num_rows st)).
        \<exists>dir \<in> set [0..<length col_dirs].
          coords_legal st (i + 3 * col_dirs ! dir) (j + 3 * row_dirs ! dir) \<and>
          (\<forall>k \<in> set [0, 1, 2, 3].
             mark st (i + k * col_dirs ! dir) (j + k * row_dirs ! dir) = piece))"

text \<open>Modelled from the spec: the two roles alternate.\<close>

definition other_role :: "string \<Rightarrow> string" where
  "other_role role = (if role = ''x'' then ''o'' else ''x'')"

text \<open>Modelled from the spec: a piece goes to the lowest empty cell of its column.\<close>

fun drop_piece :: "string list \<Rightarrow> string \<Rightarrow> string list" where
  "drop_piece [] piece = []"
| "drop_piece (c # cs) piece = (if c = ''.'' then piece # cs else c # drop_piece cs piece)"

text \<open>
  Modelled from the spec: \<^verbatim>\<open>State.advance_state\<close>. The role to move drops a piece into
  the column; the position becomes terminal when that role has four in a line (it is
  the winner) or when the board is full (a draw, the winner is the empty string). A
  call with a move that is not legal is a contract violation that the search never
  commits; here it leaves the position as it is.
\<close>

definition advance_state :: "State \<Rightarrow> int \<Rightarrow> State" where
  "advance_state st move =
     (if move \<in> set (get_legal_moves st) then
        (let placed = st\<lparr>board := (board st)[nat move := drop_piece (board st ! nat move) (turn st)]\<rparr>;
             won = four_in_line placed (turn st);
             full = (get_legal_moves placed = [])
         in placed\<lparr>turn := other_role (turn st), is_terminal := won \<or> full,
                   winner := (if won then turn st else '''')\<rparr>)
      else st)"

text \<open>The position after a sequence of moves.\<close>

definition play_moves :: "State \<Rightarrow> int list \<Rightarrow> State" where
  "play_moves st moves = foldl advance_state st moves"

section \<open>Notions used in the statements\<close>

text \<open>
  \<open>evaluated search (m, c) (m', c')\<close>: the entry \<open>(m', c')\<close> is the entry \<open>(m, c)\<close> of a
  successor dictionary after the call \<open>search c\<close> has returned: same move, and \<open>c'\<close>
  is the child as the call left it, holding the returned value.
\<close>

definition evaluated ::
  "(MinimaxNode \<Rightarrow> (error + number \<times> MinimaxNode) option) \<Rightarrow> int \<times> MinimaxNode
    \<Rightarrow> int \<times> MinimaxNode \<Rightarrow> bool" where
  "evaluated search kc kc' =
     (fst kc' = fst kc \<and> search (snd kc) = Some (Inr (nvalue (snd kc'), snd kc')))"

text \<open>A heuristic that never raises for the given role.\<close>

definition returns_normally :: "heuristic \<Rightarrow> string \<Rightarrow> bool" where
  "returns_normally h max_role = (\<forall>st. \<exists>v. h st max_role = Inr v)"

text \<open>The value and the node that a call of \<open>minimax\<close> returned, if it returned.\<close>

definition returned_value :: "(error + number \<times> MinimaxNode) option \<Rightarrow> number option" where
  "returned_value r = (case r of Some (Inr (v, node)) \<Rightarrow> Some v | _ \<Rightarrow> None)"

definition returned_node :: "(error + number \<times> MinimaxNode) option \<Rightarrow> MinimaxNode option" where
  "returned_node r = (case r of Some (Inr (v, node)) \<Rightarrow> Some node | _ \<Rightarrow> None)"

text \<open>The values of all nodes of a tree, the root first.\<close>

fun node_values :: "MinimaxNode \<Rightarrow> number list" where
  "node_values (Node st v succs) = v # concat (map (\<lambda>kc. node_values (snd kc)) succs)"

text \<open>The number of nodes of a tree.\<close>

definition tree_size :: "MinimaxNode \<Rightarrow> nat" where
  "tree_size node = length (node_values node)"

text \<open>The number of pieces on the board.\<close>

definition occupied :: "string \<Rightarrow> bool" where
  "occupied c = (c \<noteq> ''.'')"

definition pieces :: "State \<Rightarrow> nat" where
  "pieces st = length (filter occupied (concat (board st)))"

text \<open>A state that is not terminal.\<close>

definition non_terminal :: "State \<Rightarrow> bool" where
  "non_terminal st = (\<not> is_terminal st)"

text \<open>
  \<open>all_within P glm adv d st\<close>: the property \<open>P\<close> holds for \<open>st\<close> and for every state
  that is at most \<open>d\<close> plies below it. \<open>has_moves_within glm adv d st\<close>: every state
  less than \<open>d\<close> plies below \<open>st\<close> (the states that a search of depth \<open>d\<close> expands) has
  a legal move; for non-terminal states this is the contract of \<^verbatim>\<open>get_legal_moves\<close>.
\<close>

fun all_within ::
  "(State \<Rightarrow> bool) \<Rightarrow> (State \<Rightarrow> int list) \<Rightarrow> (State \<Rightarrow> int \<Rightarrow> State) \<Rightarrow> nat \<Rightarrow> State \<Rightarrow> bool" where
  "all_within P glm adv 0 st = P st"
| "all_within P glm adv (Suc d) st =
     (P st \<and> (\<forall>m \<in> set (glm st). all_within P glm adv d (adv st m)))"

fun has_moves_within ::
  "(State \<Rightarrow> int list) \<Rightarrow> (State \<Rightarrow> int \<Rightarrow> State) \<Rightarrow> nat \<Rightarrow> State \<Rightarrow> bool" where
  "has_moves_within glm adv 0 st = True"
| "has_moves_within glm adv (Suc d) st =
     (glm st \<noteq> [] \<and> (\<forall>m \<in> set (glm st). has_moves_within glm adv d (adv st m)))"

text \<open>
  \<open>ends_within glm adv n st\<close>: every line of play from \<open>st\<close> reaches a terminal state
  after at most \<open>n\<close> moves.
\<close>

fun ends_within ::
  "(State \<Rightarrow> int list) \<Rightarrow> (State \<Rightarrow> int \<Rightarrow> State) \<Rightarrow> nat \<Rightarrow> State \<Rightarrow> bool" where
  "ends_within glm adv 0 st = is_terminal st"
| "ends_within glm adv (Suc n) st =
     (is_terminal st \<or> (\<forall>m \<in> set (glm st). ends_within glm adv n (adv st m)))"

text \<open>
  A state as the class \<^verbatim>\<open>State\<close> keeps it: the board has \<^verbatim>\<open>num_cols\<close> columns of
  \<^verbatim>\<open>num_rows\<close> cells.
\<close>

definition well_formed :: "State \<Rightarrow> bool" where
  "well_formed st =
     (0 \<le> num_cols st \<and> 0 \<le> num_rows st \<and> int (length (board st)) = num_cols st
      \<and> (\<forall>column \<in> set (board st). int (length column) = num_rows st))"

text \<open>A non-terminal state with a well-formed board of 7 columns and 6 rows.\<close>

definition standard_board :: "State \<Rightarrow> bool" where
  "standard_board st =
     (\<not> is_terminal st \<and> well_formed st \<and> num_cols st = 7 \<and> num_rows st = 6)"

text \<open>
  All triples of a column, a row and a direction index, in the order in which
  \<open>three_line_heur\<close> visits them.
\<close>

definition line_starts :: "State \<Rightarrow> (int \<times> int \<times> nat) list" where
  "line_starts st =
     List.product (py_range (num_cols st))
       (List.product (py_range (num_rows st)) [0..<length col_dirs])"

text \<open>
  \<open>run_of_three st (i, j, dir)\<close>: the cell \<open>(i, j)\<close> is occupied, the cell two steps
  from it in the direction is on the board, and the cells one and two steps from it
  hold the same mark as it does.
\<close>

definition run_of_three :: "State \<Rightarrow> int \<times> int \<times> nat \<Rightarrow> bool" where
  "run_of_three st = (\<lambda>(i, j, dir).
     mark st i j \<noteq> ''.''
     \<and> coords_legal st (i + 2 * col_dirs ! dir) (j + 2 * row_dirs ! dir)
     \<and> mark st (i + col_dirs ! dir) (j + row_dirs ! dir) = mark st i j
     \<and> mark st (i + 2 * col_dirs ! dir) (j + 2 * row_dirs ! dir) = mark st i j)"

text \<open>
  The runs of the specification's sentence: a run of three that is exact (the next cell
  does not continue it) and has a fourth cell on the board beyond it.
\<close>

definition exact_run_with_fourth :: "State \<Rightarrow> int \<times> int \<times> nat \<Rightarrow> bool" where
  "exact_run_with_fourth st = (\<lambda>(i, j, dir).
     run_of_three st (i, j, dir)
     \<and> coords_legal st (i + 3 * col_dirs ! dir) (j + 3 * row_dirs ! dir)
     \<and> mark st (i + 3 * col_dirs ! dir) (j + 3 * row_dirs ! dir) \<noteq> mark st i j)"

text \<open>
  The signed count of the starts of a kind of run: those of the maximizing role minus
  those of any other mark.
\<close>

definition signed_count :: "(int \<times> int \<times> nat \<Rightarrow> bool) \<Rightarrow> State \<Rightarrow> string \<Rightarrow> int" where
  "signed_count starts st max_role =
     int (length (filter (\<lambda>(i, j, dir). starts (i, j, dir) \<and> mark st i j = max_role)
            (line_starts st)))
     - int (length (filter (\<lambda>(i, j, dir). starts (i, j, dir) \<and> mark st i j \<noteq> max_role)
              (line_starts st)))"

text \<open>
  What one triple of a column, a row and a direction adds to the result of
  \<open>three_line_heur\<close>.
\<close>

definition three_line_contrib :: "State \<Rightarrow> string \<Rightarrow> int \<times> int \<times> nat \<Rightarrow> int" where
  "three_line_contrib st max_role = (\<lambda>(i, j, dir).
     if run_of_three st (i, j, dir) then (if mark st i j = max_role then 1 else - 1) else 0)"

text \<open>
  A node is valid in a store when every address in it is allocated. The abstraction of
  a valid node replaces every address by the contents of its object, and the
  abstraction of a result does so in the store that the call returned.
\<close>

fun valid_node :: "store \<Rightarrow> HeapNode \<Rightarrow> bool" where
  "valid_node s (HeapNode a v succs) =
     (a < length s \<and> (\<forall>kc \<in> set succs. valid_node s (snd kc)))"

fun abs_node :: "store \<Rightarrow> HeapNode \<Rightarrow> MinimaxNode" where
  "abs_node s (HeapNode a v succs) =
     Node (s ! a) v (map (\<lambda>kc. (fst kc, abs_node s (snd kc))) succs)"

fun abs_result ::
  "(error + number \<times> HeapNode \<times> store) option \<Rightarrow> (error + number \<times> MinimaxNode) option" where
  "abs_result None = None"
| "abs_result (Some (Inl e)) = Some (Inl e)"
| "abs_result (Some (Inr (v, node, s))) = Some (Inr (v, abs_node s node))"

text \<open>The abstraction of a successor dictionary and of the result of the loop over it.\<close>

definition abs_succs :: "store \<Rightarrow> (int \<times> HeapNode) list \<Rightarrow> (int \<times> MinimaxNode) list" where
  "abs_succs s succs = map (\<lambda>kc. (fst kc, abs_node s (snd kc))) succs"

fun abs_children_result ::
  "(error + number \<times> (int \<times> HeapNode) list \<times> store) option
    \<Rightarrow> (error + number \<times> (int \<times> MinimaxNode) list) option" where
  "abs_children_result None = None"
| "abs_children_result (Some (Inl e)) = Some (Inl e)"
| "abs_children_result (Some (Inr (acc, succs, s))) = Some (Inr (acc, abs_succs s succs))"

section \<open>Positions and players of the examples\<close>

text \<open>A position that \<open>o\<close> has won (four in column 1), searched with depth 3.\<close>

definition won_by_o :: State where
  "won_by_o = play_moves (initial_state 7 6) [0, 1, 0, 1, 0, 1, 2, 1]"

text \<open>
  A position after five moves: \<open>x\<close> holds the three rightmost cells of the bottom row,
  \<open>o\<close> the two leftmost.
\<close>

definition three_at_edge :: State where
  "three_at_edge = play_moves (initial_state 7 6) [4, 0, 5, 1, 6]"

text \<open>
  A position after 26 moves, with \<open>x\<close> to move. Rows from the top:
  \<^verbatim>\<open>..o.o.o\<close>, \<^verbatim>\<open>..xxx.o\<close>, \<^verbatim>\<open>..oox.o\<close>, \<^verbatim>\<open>..xxx.x\<close>, \<^verbatim>\<open>..xxo.o\<close>, \<^verbatim>\<open>ooxxxoo\<close>.
  Nobody has four in a line, and nobody can complete a line within the next two moves.
\<close>

definition quiet_position :: State where
  "quiet_position = play_moves (initial_state 7 6)
     [3, 6, 3, 1, 3, 3, 2, 0, 2, 5, 4, 4, 4, 6, 2, 2, 6, 6, 4, 6, 3, 6, 2, 2, 4, 4]"

text \<open>A player for \<open>x\<close> that searches one ply with \<open>three_line_heur\<close>.\<close>

definition three_line_player :: MinimaxPlayer where
  "three_line_player =
     \<lparr>self_role = ''x'', self_depth = 1, self_heur = three_line_heur, self_display = True\<rparr>"

chapter \<open>Properties\<close>

section \<open>The base case of the search\<close>

text \<open>
  Claim C2. When the depth is 0 or the state of the node is terminal, one call of
  \<open>minimax\<close> returns exactly what the heuristic returns for that state and the
  maximizing role, stores it as the value of the node, and leaves the successors of the
  node as they were: no successor is generated, so a fresh node keeps its empty
  dictionary. This holds for every depth (also a negative one) once the state is
  terminal, and an exception of the heuristic is passed on.
\<close>

theorem minimax_base_case:
  assumes "depth = 0 \<or> is_terminal (nstate node)"
  shows "minimax (Suc fuel) glm adv node depth max_role heuristic_fn =
           (case heuristic_fn (nstate node) max_role of
              Inl e \<Rightarrow> Some (Inl e)
            | Inr v \<Rightarrow> Some (Inr (v, Node (nstate node) v (successors node))))
         \<and> (\<forall>v node'. minimax (Suc fuel) glm adv (MinimaxNode_init (nstate node)) depth
                          max_role heuristic_fn = Some (Inr (v, node'))
              \<longrightarrow> heuristic_fn (nstate node) max_role = Inr v \<and> nvalue node' = v
                  \<and> successors node' = [] \<and> nstate node' = nstate node)"
  using assms by (auto simp: MinimaxNode_init_def split: sum.splits)

lemma won_by_o_eval:
  "won_by_o =
     \<lparr>board = [[''x'', ''x'', ''x'', ''.'', ''.'', ''.''],
               [''o'', ''o'', ''o'', ''o'', ''.'', ''.''],
               [''x'', ''.'', ''.'', ''.'', ''.'', ''.''],
               [''.'', ''.'', ''.'', ''.'', ''.'', ''.''],
               [''.'', ''.'', ''.'', ''.'', ''.'', ''.''],
               [''.'', ''.'', ''.'', ''.'', ''.'', ''.''],
               [''.'', ''.'', ''.'', ''.'', ''.'', ''.'']],
      num_cols = 7, num_rows = 6, turn = ''x'', is_terminal = True, winner = ''o''\<rparr>"
  by code_simp

theorem minimax_base_case_witness:
  "is_terminal (nstate (MinimaxNode_init won_by_o))
   \<and> minimax (Suc 0) get_legal_moves advance_state (MinimaxNode_init won_by_o) 3 ''x'' zero_heur
       = Some (Inr (Fin (- 100), Node won_by_o (Fin (- 100)) []))"
proof -
  have t: "is_terminal (nstate (MinimaxNode_init won_by_o))"
    by (simp add: MinimaxNode_init_def won_by_o_eval)
  have h: "zero_heur won_by_o ''x'' = Inr (Fin (- 100))"
    by (simp add: zero_heur_def won_by_o_eval)
  from minimax_base_case [of 3 "MinimaxNode_init won_by_o" 0 get_legal_moves advance_state
      "''x''" zero_heur] t h
  show ?thesis by (simp add: MinimaxNode_init_def)
qed

section \<open>The terminal rule of the heuristics\<close>

text \<open>
  Claim C3. On a terminal state each of \<open>zero_heur\<close>, \<open>three_line_heur\<close> and
  \<open>my_heuristic\<close> returns 0 when the winner is the empty string (a draw), otherwise 100
  when the winner is the maximizing role, otherwise -100; the board is not looked at.
\<close>

theorem heuristics_terminal:
  assumes "is_terminal st"
  shows "zero_heur st max_role =
           Inr (Fin (if winner st = '''' then 0 else if winner st = max_role then 100 else - 100))
       \<and> three_line_heur st max_role =
           Inr (Fin (if winner st = '''' then 0 else if winner st = max_role then 100 else - 100))
       \<and> my_heuristic st max_role =
           Inr (Fin (if winner st = '''' then 0 else if winner st = max_role then 100 else - 100))"
  using assms by (simp add: zero_heur_def three_line_heur_def my_heuristic_def)

theorem heuristics_terminal_witness:
  "is_terminal won_by_o
   \<and> zero_heur won_by_o ''o'' = Inr (Fin 100) \<and> three_line_heur won_by_o ''o'' = Inr (Fin 100)
   \<and> my_heuristic won_by_o ''o'' = Inr (Fin 100)
   \<and> zero_heur won_by_o ''x'' = Inr (Fin (- 100)) \<and> three_line_heur won_by_o ''x'' = Inr (Fin (- 100))
   \<and> my_heuristic won_by_o ''x'' = Inr (Fin (- 100))"
proof -
  have t: "is_terminal won_by_o" and w: "winner won_by_o = ''o''"
    by (simp_all add: won_by_o_eval)
  from heuristics_terminal [OF t, of "''o''"] heuristics_terminal [OF t, of "''x''"] t w
  show ?thesis by simp
qed

section \<open>Dictionaries, successor lists and the loop over the children\<close>


lemma map_of_dict_set: "map_of (dict_set kvs k v) = (map_of kvs)(k \<mapsto> v)"
  by (induction kvs) (auto simp: fun_eq_iff)

lemma keys_dict_set: "fst ` set (dict_set kvs k v) = insert k (fst ` set kvs)"
  by (simp add: dom_map_of_conv_image_fst [symmetric] map_of_dict_set)

lemma distinct_dict_set: "distinct (map fst kvs) \<Longrightarrow> distinct (map fst (dict_set kvs k v))"
  by (induction kvs) (auto simp: keys_dict_set)

lemma map_of_set_successors:
  "map_of (set_successors adv st moves succs) m =
     (if m \<in> set moves then Some (MinimaxNode_init (adv st m)) else map_of succs m)"
  by (induction moves arbitrary: succs) (auto simp: map_of_dict_set)

lemma keys_set_successors:
  "fst ` set (set_successors adv st moves succs) = set moves \<union> fst ` set succs"
  by (induction moves arbitrary: succs) (auto simp: keys_dict_set)

lemma distinct_set_successors:
  "distinct (map fst succs) \<Longrightarrow> distinct (map fst (set_successors adv st moves succs))"
  by (induction moves arbitrary: succs) (auto simp: distinct_dict_set)

lemma dict_set_fresh: "k \<notin> fst ` set kvs \<Longrightarrow> dict_set kvs k v = kvs @ [(k, v)]"
  by (induction kvs) auto

lemma set_successors_fresh:
  "distinct moves \<Longrightarrow> set moves \<inter> fst ` set succs = {} \<Longrightarrow>
   set_successors adv st moves succs = succs @ map (\<lambda>m. (m, MinimaxNode_init (adv st m))) moves"
proof (induction moves arbitrary: succs)
  case Nil
  then show ?case by simp
next
  case (Cons m ms)
  have "dict_set succs m (MinimaxNode_init (adv st m)) = succs @ [(m, MinimaxNode_init (adv st m))]"
    using Cons.prems by (intro dict_set_fresh) auto
  moreover have "set ms \<inter> fst ` set (succs @ [(m, MinimaxNode_init (adv st m))]) = {}"
    using Cons.prems by auto
  ultimately show ?case using Cons.IH [of "succs @ [(m, MinimaxNode_init (adv st m))]"] Cons.prems
    by simp
qed

lemma minimax_stores_value:
  assumes "minimax fuel glm adv node depth max_role h = Some (Inr (v, node'))"
  shows "nvalue node' = v \<and> nstate node' = nstate node"
proof (cases fuel)
  case 0
  with assms show ?thesis by simp
next
  case (Suc f)
  with assms show ?thesis
    by (auto simp: Let_def split: if_splits sum.splits option.splits)
qed

lemma eval_children_returns:
  assumes "\<forall>kc \<in> set succs. \<exists>c'. search (snd kc) = Some (Inr (nvalue c', c'))"
  shows "\<exists>succs'. list_all2 (evaluated search) succs succs' \<and>
           eval_children search opr acc succs =
             Some (Inr (fold (\<lambda>v a. opr a v) (map (nvalue \<circ> snd) succs') acc, succs'))"
  using assms
proof (induction succs arbitrary: acc)
  case Nil
  then show ?case by simp
next
  case (Cons kc succs)
  obtain m c where kc: "kc = (m, c)" by (cases kc)
  from Cons.prems kc obtain c' where c': "search c = Some (Inr (nvalue c', c'))" by auto
  from Cons.prems have "\<forall>kc \<in> set succs. \<exists>c'. search (snd kc) = Some (Inr (nvalue c', c'))"
    by simp
  from Cons.IH [OF this, of "opr acc (nvalue c')"] obtain succs' where
    r: "list_all2 (evaluated search) succs succs'"
       "eval_children search opr (opr acc (nvalue c')) succs =
          Some (Inr (fold (\<lambda>v a. opr a v) (map (nvalue \<circ> snd) succs') (opr acc (nvalue c')), succs'))"
    by blast
  have "list_all2 (evaluated search) (kc # succs) ((m, c') # succs')"
    using r(1) c' kc by (simp add: evaluated_def)
  moreover have "eval_children search opr acc (kc # succs) =
      Some (Inr (fold (\<lambda>v a. opr a v) (map (nvalue \<circ> snd) ((m, c') # succs')) acc, (m, c') # succs'))"
    using r(2) c' kc by simp
  ultimately show ?case by blast
qed

lemma NegInf_least: "NegInf \<le> (x::number)" by simp
lemma PosInf_greatest: "(x::number) \<le> PosInf" by (cases x) simp_all

lemma fold_max_NegInf:
  "fold (\<lambda>v a. max a v) vs NegInf = (if vs = [] then NegInf else Max (set vs))"
proof -
  have "(\<lambda>v a. max a v) = (max :: number \<Rightarrow> number \<Rightarrow> number)"
    by (simp add: fun_eq_iff max.commute)
  then have "fold (\<lambda>v a. max a v) vs NegInf = Max (set (NegInf # vs))"
    by (simp add: Max.set_eq_fold [symmetric])
  also have "\<dots> = (if vs = [] then NegInf else Max (set vs))"
    by (cases "vs = []") (simp_all add: max_def)
  finally show ?thesis .
qed

lemma fold_min_PosInf:
  "fold (\<lambda>v a. min a v) vs PosInf = (if vs = [] then PosInf else Min (set vs))"
proof -
  have "(\<lambda>v a. min a v) = (min :: number \<Rightarrow> number \<Rightarrow> number)"
    by (simp add: fun_eq_iff min.commute)
  then have "fold (\<lambda>v a. min a v) vs PosInf = Min (set (PosInf # vs))"
    by (simp add: Min.set_eq_fold [symmetric])
  also have "\<dots> = (if vs = [] then PosInf else Min (set vs))"
    by (cases "vs = []") (simp_all add: PosInf_greatest)
  finally show ?thesis .
qed


lemma list_all2_evaluated_keys:
  "list_all2 (evaluated search) succs succs' \<Longrightarrow> map fst succs' = map fst succs"
  by (induction rule: list_all2_induct) (simp_all add: evaluated_def)

lemma list_all2_evaluated_member:
  assumes "list_all2 (evaluated search) succs succs'" and "(m, c) \<in> set succs"
  shows "\<exists>c'. (m, c') \<in> set succs' \<and> search c = Some (Inr (nvalue c', c'))"
proof -
  from assms(2) obtain i where i: "i < length succs" "succs ! i = (m, c)"
    by (auto simp: in_set_conv_nth)
  with assms(1) have e: "evaluated search (m, c) (succs' ! i)" and l: "i < length succs'"
    by (auto simp: list_all2_conv_all_nth)
  obtain m' c' where mc: "succs' ! i = (m', c')" by (cases "succs' ! i")
  with e have "m' = m" "search c = Some (Inr (nvalue c', c'))"
    by (simp_all add: evaluated_def)
  moreover from l mc have "(m', c') \<in> set succs'" by (metis nth_mem)
  ultimately show ?thesis by blast
qed

lemma minimax_expand_nonzero:
  assumes nt: "\<not> is_terminal (nstate node)" and d: "depth \<noteq> 0"
    and succs: "succs = set_successors adv (nstate node) (glm (nstate node)) (successors node)"
    and ch: "\<forall>kc \<in> set succs. \<exists>v c'.
               minimax fuel glm adv (snd kc) (depth - 1) max_role h = Some (Inr (v, c'))"
  shows "\<exists>succs' best.
           minimax (Suc fuel) glm adv node depth max_role h =
             Some (Inr (best, Node (nstate node) best succs'))
         \<and> list_all2 (evaluated (\<lambda>child. minimax fuel glm adv child (depth - 1) max_role h))
              succs succs'
         \<and> best =
             (if turn (nstate node) = max_role
              then (if succs' = [] then NegInf else Max (set (map (nvalue \<circ> snd) succs')))
              else (if succs' = [] then PosInf else Min (set (map (nvalue \<circ> snd) succs'))))
         \<and> (\<forall>m \<in> set (glm (nstate node)). \<exists>c'. (m, c') \<in> set succs' \<and>
                minimax fuel glm adv (MinimaxNode_init (adv (nstate node) m)) (depth - 1)
                  max_role h = Some (Inr (nvalue c', c')))
         \<and> (successors node = [] \<and> distinct (glm (nstate node))
              \<longrightarrow> map fst succs' = glm (nstate node))"
proof -
  let ?search = "\<lambda>child. minimax fuel glm adv child (depth - 1) max_role h"
  have "\<forall>kc \<in> set succs. \<exists>c'. ?search (snd kc) = Some (Inr (nvalue c', c'))"
  proof
    fix kc assume "kc \<in> set succs"
    with ch obtain v c' where r: "?search (snd kc) = Some (Inr (v, c'))" by blast
    then have "nvalue c' = v" by (simp add: minimax_stores_value)
    with r show "\<exists>c'. ?search (snd kc) = Some (Inr (nvalue c', c'))" by blast
  qed
  then have ex: "\<And>opr acc. \<exists>succs'. list_all2 (evaluated ?search) succs succs' \<and>
      eval_children ?search opr acc succs =
        Some (Inr (fold (\<lambda>v a. opr a v) (map (nvalue \<circ> snd) succs') acc, succs'))"
    by (rule eval_children_returns)
  define opr :: "number \<Rightarrow> number \<Rightarrow> number" where
    "opr = (if turn (nstate node) = max_role then max else min)"
  define start where "start = (if turn (nstate node) = max_role then NegInf else PosInf)"
  from ex [of opr start] obtain succs' where
    all2: "list_all2 (evaluated ?search) succs succs'" and
    ev: "eval_children ?search opr start succs =
           Some (Inr (fold (\<lambda>v a. opr a v) (map (nvalue \<circ> snd) succs') start, succs'))"
    by blast
  define best where "best = fold (\<lambda>v a. opr a v) (map (nvalue \<circ> snd) succs') start"
  have run: "minimax (Suc fuel) glm adv node depth max_role h =
               Some (Inr (best, Node (nstate node) best succs'))"
  proof (cases "turn (nstate node) = max_role")
    case True
    with nt d ev show ?thesis
      by (simp add: succs opr_def start_def best_def Let_def)
  next
    case False
    with nt d ev show ?thesis
      by (simp add: succs opr_def start_def best_def Let_def)
  qed
  have val: "best =
      (if turn (nstate node) = max_role
       then (if succs' = [] then NegInf else Max (set (map (nvalue \<circ> snd) succs')))
       else (if succs' = [] then PosInf else Min (set (map (nvalue \<circ> snd) succs'))))"
    by (simp add: best_def opr_def start_def fold_max_NegInf fold_min_PosInf)
  have visited: "\<forall>m \<in> set (glm (nstate node)). \<exists>c'. (m, c') \<in> set succs' \<and>
      ?search (MinimaxNode_init (adv (nstate node) m)) = Some (Inr (nvalue c', c'))"
  proof
    fix m assume "m \<in> set (glm (nstate node))"
    then have "map_of succs m = Some (MinimaxNode_init (adv (nstate node) m))"
      by (simp add: succs map_of_set_successors)
    then have "(m, MinimaxNode_init (adv (nstate node) m)) \<in> set succs"
      by (rule map_of_SomeD)
    with all2 show "\<exists>c'. (m, c') \<in> set succs' \<and>
        ?search (MinimaxNode_init (adv (nstate node) m)) = Some (Inr (nvalue c', c'))"
      by (rule list_all2_evaluated_member)
  qed
  have keys: "successors node = [] \<and> distinct (glm (nstate node))
      \<longrightarrow> map fst succs' = glm (nstate node)"
  proof
    assume a: "successors node = [] \<and> distinct (glm (nstate node))"
    then have "succs = map (\<lambda>m. (m, MinimaxNode_init (adv (nstate node) m))) (glm (nstate node))"
      by (simp add: succs set_successors_fresh)
    then have "map fst succs = glm (nstate node)" by (simp add: comp_def)
    with all2 show "map fst succs' = glm (nstate node)"
      by (simp add: list_all2_evaluated_keys)
  qed
  from run all2 val visited keys show ?thesis by blast
qed

lemma minimax_expand:
  assumes nt: "\<not> is_terminal (nstate node)" and d: "0 < depth"
    and succs: "succs = set_successors adv (nstate node) (glm (nstate node)) (successors node)"
    and ch: "\<forall>kc \<in> set succs. \<exists>v c'.
               minimax fuel glm adv (snd kc) (depth - 1) max_role h = Some (Inr (v, c'))"
  shows "\<exists>succs' best.
           minimax (Suc fuel) glm adv node depth max_role h =
             Some (Inr (best, Node (nstate node) best succs'))
         \<and> list_all2 (evaluated (\<lambda>child. minimax fuel glm adv child (depth - 1) max_role h))
              succs succs'
         \<and> best =
             (if turn (nstate node) = max_role
              then (if succs' = [] then NegInf else Max (set (map (nvalue \<circ> snd) succs')))
              else (if succs' = [] then PosInf else Min (set (map (nvalue \<circ> snd) succs'))))
         \<and> (\<forall>m \<in> set (glm (nstate node)). \<exists>c'. (m, c') \<in> set succs' \<and>
                minimax fuel glm adv (MinimaxNode_init (adv (nstate node) m)) (depth - 1)
                  max_role h = Some (Inr (nvalue c', c')))
         \<and> (successors node = [] \<and> distinct (glm (nstate node))
              \<longrightarrow> map fst succs' = glm (nstate node))"
proof -
  from d have "depth \<noteq> 0" by simp
  from minimax_expand_nonzero [OF nt this succs ch] show ?thesis .
qed

lemma eval_children_mono:
  assumes "\<And>c r. c \<in> snd ` set succs \<Longrightarrow> f c = Some r \<Longrightarrow> g c = Some r"
    and "eval_children f opr acc succs = Some r"
  shows "eval_children g opr acc succs = Some r"
  using assms
proof (induction succs arbitrary: acc r)
  case Nil
  then show ?case by simp
next
  case (Cons kc succs)
  obtain m c where kc: "kc = (m, c)" by (cases kc)
  from Cons.prems(2) kc obtain rc where rc: "f c = Some rc"
    by (auto split: option.splits)
  then have g: "g c = Some rc" using Cons.prems(1) [of c rc] kc by simp
  show ?case
  proof (cases rc)
    case (Inl e)
    with rc g kc Cons.prems(2) show ?thesis by simp
  next
    case (Inr vc)
    obtain v c' where vc: "vc = (v, c')" by (cases vc)
    from Cons.prems(2) kc rc Inr vc obtain rr where
      rr: "eval_children f opr (opr acc v) succs = Some rr"
      by (auto split: option.splits)
    have "eval_children g opr (opr acc v) succs = Some rr"
      using Cons.IH [OF _ rr] Cons.prems(1) by auto
    with Cons.prems(2) kc rc g Inr vc rr show ?thesis by simp
  qed
qed

lemma minimax_fuel_Suc:
  "minimax fuel glm adv node depth max_role h = Some r \<Longrightarrow>
   minimax (Suc fuel) glm adv node depth max_role h = Some r"
proof (induction fuel arbitrary: node depth r)
  case 0
  then show ?case by simp
next
  case (Suc fuel)
  show ?case
  proof (cases "depth = 0 \<or> is_terminal (nstate node)")
    case True
    with Suc.prems show ?thesis by simp
  next
    case False
    let ?succs = "set_successors adv (nstate node) (glm (nstate node)) (successors node)"
    let ?f = "\<lambda>child. minimax fuel glm adv child (depth - 1) max_role h"
    let ?g = "\<lambda>child. minimax (Suc fuel) glm adv child (depth - 1) max_role h"
    have step: "\<And>opr acc rr. eval_children ?f opr acc ?succs = Some rr \<Longrightarrow>
        eval_children ?g opr acc ?succs = Some rr"
    proof (rule eval_children_mono [where f = ?f])
      fix c r assume "?f c = Some r"
      then show "?g c = Some r" by (rule Suc.IH)
    qed
    show ?thesis
    proof (cases "turn (nstate node) = max_role")
      case True
      with False Suc.prems obtain rr where
        rr: "eval_children ?f max NegInf ?succs = Some rr"
        by (auto simp: Let_def split: option.splits)
      from step [OF rr] rr False True Suc.prems show ?thesis
        by (simp add: Let_def)
    next
      case nm: False
      with False Suc.prems obtain rr where
        rr: "eval_children ?f min PosInf ?succs = Some rr"
        by (auto simp: Let_def split: option.splits)
      from step [OF rr] rr False nm Suc.prems show ?thesis
        by (simp add: Let_def)
    qed
  qed
qed

lemma minimax_fuel_mono:
  "minimax fuel glm adv node depth max_role h = Some r \<Longrightarrow> fuel \<le> fuel' \<Longrightarrow>
   minimax fuel' glm adv node depth max_role h = Some r"
proof -
  assume r: "minimax fuel glm adv node depth max_role h = Some r" and "fuel \<le> fuel'"
  then obtain k where k: "fuel' = fuel + k" by (auto simp: le_iff_add)
  have "minimax (fuel + k) glm adv node depth max_role h = Some r"
  proof (induction k)
    case 0
    from r show ?case by simp
  next
    case (Suc k)
    then have "minimax (Suc (fuel + k)) glm adv node depth max_role h = Some r"
      by (rule minimax_fuel_Suc)
    then show ?case by simp
  qed
  with k show ?thesis by simp
qed

section \<open>The search returns\<close>


lemma minimax_returns:
  assumes "returns_normally h max_role"
  shows "0 \<le> depth \<Longrightarrow> nat depth < fuel \<Longrightarrow>
         \<exists>v node'. minimax fuel glm adv node depth max_role h = Some (Inr (v, node'))"
proof (induction fuel arbitrary: node depth)
  case 0
  then show ?case by simp
next
  case (Suc fuel)
  show ?case
  proof (cases "depth = 0 \<or> is_terminal (nstate node)")
    case True
    from assms obtain v where "h (nstate node) max_role = Inr v"
      unfolding returns_normally_def by blast
    with True show ?thesis by simp
  next
    case False
    then have nt: "\<not> is_terminal (nstate node)" and d: "0 < depth"
      using Suc.prems by auto
    have "\<forall>kc \<in> set (set_successors adv (nstate node) (glm (nstate node)) (successors node)).
            \<exists>v c'. minimax fuel glm adv (snd kc) (depth - 1) max_role h = Some (Inr (v, c'))"
      using Suc.IH [of "depth - 1"] Suc.prems d by auto
    from minimax_expand [OF nt d refl this] show ?thesis by blast
  qed
qed

lemma initial_moves: "get_legal_moves (initial_state 7 6) = [0, 1, 2, 3, 4, 5, 6]"
  by code_simp

lemma zero_heur_returns: "returns_normally zero_heur max_role"
  by (simp add: returns_normally_def zero_heur_def)

section \<open>The recursive case of the search\<close>

text \<open>
  Claim C1. Let the state of the node be non-terminal and the depth be above 0, and let
  every recursive call on a successor (at depth - 1) return normally. Then the
  call of \<open>minimax\<close> returns a value \<open>best\<close> and stores it in the node; the
  successors of the node are the expanded successors, each as its recursive call left
  it; \<open>best\<close> is the maximum of the successors' values when the turn of the state is
  the maximizing role and their minimum otherwise (with no successor at all it is the
  initial \<open>-inf\<close> or \<open>inf\<close>); every legal move has a successor, which is the result
  of the recursive call on a fresh node around the advanced state, so that no move is
  pruned; and for a fresh node and distinct legal moves the keys of the successors are
  exactly the legal moves, in their order.
\<close>

theorem minimax_recursive_case:
  assumes "\<not> is_terminal (nstate node)" and "0 < depth"
    and "succs = set_successors adv (nstate node) (glm (nstate node)) (successors node)"
    and "\<forall>kc \<in> set succs. \<exists>v c'.
           minimax fuel glm adv (snd kc) (depth - 1) max_role h = Some (Inr (v, c'))"
  shows "\<exists>succs' best.
           minimax (Suc fuel) glm adv node depth max_role h =
             Some (Inr (best, Node (nstate node) best succs'))
         \<and> list_all2 (evaluated (\<lambda>child. minimax fuel glm adv child (depth - 1) max_role h))
              succs succs'
         \<and> best =
             (if turn (nstate node) = max_role
              then (if succs' = [] then NegInf else Max (set (map (nvalue \<circ> snd) succs')))
              else (if succs' = [] then PosInf else Min (set (map (nvalue \<circ> snd) succs'))))
         \<and> (\<forall>m \<in> set (glm (nstate node)). \<exists>c'. (m, c') \<in> set succs' \<and>
                minimax fuel glm adv (MinimaxNode_init (adv (nstate node) m)) (depth - 1)
                  max_role h = Some (Inr (nvalue c', c')))
         \<and> (successors node = [] \<and> distinct (glm (nstate node))
              \<longrightarrow> map fst succs' = glm (nstate node))"
  using assms by (rule minimax_expand)

theorem minimax_recursive_case_witness:
  "\<not> is_terminal (nstate (MinimaxNode_init (initial_state 7 6))) \<and> (0::int) < 2
   \<and> (\<exists>succs' best.
         minimax (Suc 2) get_legal_moves advance_state (MinimaxNode_init (initial_state 7 6)) 2
           ''x'' zero_heur = Some (Inr (best, Node (initial_state 7 6) best succs'))
       \<and> best = Max (set (map (nvalue \<circ> snd) succs'))
       \<and> map fst succs' = [0, 1, 2, 3, 4, 5, 6])"
proof -
  let ?node = "MinimaxNode_init (initial_state 7 6)"
  have st: "nstate ?node = initial_state 7 6" and su: "successors ?node = []"
    by (simp_all add: MinimaxNode_init_def)
  have nt: "\<not> is_terminal (nstate ?node)"
    by (simp add: MinimaxNode_init_def initial_state_def)
  have tu: "turn (nstate ?node) = ''x''"
    by (simp add: MinimaxNode_init_def initial_state_def)
  have d: "(0::int) < 2" by simp
  have ch: "\<forall>kc \<in> set (set_successors advance_state (nstate ?node)
               (get_legal_moves (nstate ?node)) (successors ?node)).
             \<exists>v c'. minimax 2 get_legal_moves advance_state (snd kc) (2 - 1) ''x'' zero_heur
                      = Some (Inr (v, c'))"
    using minimax_returns [OF zero_heur_returns, of "2 - 1" 2] by simp
  from minimax_recursive_case [OF nt d refl ch] obtain succs' best where
    r: "minimax (Suc 2) get_legal_moves advance_state ?node 2 ''x'' zero_heur =
          Some (Inr (best, Node (nstate ?node) best succs'))"
    and b: "best =
             (if turn (nstate ?node) = ''x''
              then (if succs' = [] then NegInf else Max (set (map (nvalue \<circ> snd) succs')))
              else (if succs' = [] then PosInf else Min (set (map (nvalue \<circ> snd) succs'))))"
    and k: "successors ?node = [] \<and> distinct (get_legal_moves (nstate ?node))
              \<longrightarrow> map fst succs' = get_legal_moves (nstate ?node)"
    by blast
  from k have keys: "map fst succs' = [0, 1, 2, 3, 4, 5, 6]"
    by (simp add: st su initial_moves)
  then have "succs' \<noteq> []" by auto
  with b tu have "best = Max (set (map (nvalue \<circ> snd) succs'))" by simp
  with r keys nt d show ?thesis by (simp add: st)
qed

section \<open>The choice of a move\<close>


lemma dict_get_key:
  "k \<in> fst ` set kvs \<Longrightarrow> dict_get kvs k = Inr (the (map_of kvs k))"
  by (cases "map_of kvs k") (auto simp: dict_get_def map_of_eq_None_iff)

lemma py_index_nat: "i < length xs \<Longrightarrow> py_index xs (int i) = Inr (xs ! i)"
  by (simp add: py_index_def)

lemma best_moves_loop_step:
  assumes "bm \<noteq> []" and "move \<in> fst ` set succs" and "hd bm \<in> fst ` set succs"
  shows "best_moves_loop succs (move # moves) bm =
           (if nvalue (the (map_of succs move)) > nvalue (the (map_of succs (hd bm)))
            then best_moves_loop succs moves [move]
            else if nvalue (the (map_of succs move)) = nvalue (the (map_of succs (hd bm)))
            then best_moves_loop succs moves (bm @ [move])
            else best_moves_loop succs moves bm)"
proof -
  from assms(1) have "py_index bm 0 = Inr (hd bm)"
    using py_index_nat [of 0 bm] by (simp add: hd_conv_nth)
  with assms show ?thesis by (simp add: dict_get_key)
qed

lemma best_moves_loop_filter:
  assumes val: "\<And>k. val k = nvalue (the (map_of succs k))"
  shows "set bm \<union> set ks \<subseteq> fst ` set succs \<Longrightarrow> \<forall>b \<in> set bm. val b = v \<Longrightarrow>
         best_moves_loop succs ks bm =
           Inr (filter (\<lambda>k. \<forall>k' \<in> set (bm @ ks). val k' \<le> val k) (bm @ ks))"
proof (induction ks arbitrary: bm v)
  case Nil
  have "filter (\<lambda>k. \<forall>k' \<in> set bm. val k' \<le> val k) bm = bm"
    unfolding filter_id_conv using Nil.prems(2) by simp
  then show ?case by simp
next
  case (Cons move moves)
  have one: "best_moves_loop succs moves [move] =
      Inr (filter (\<lambda>k. \<forall>k' \<in> set ([move] @ moves). val k' \<le> val k) ([move] @ moves))"
  proof (rule Cons.IH [where v = "val move"])
    show "set [move] \<union> set moves \<subseteq> fst ` set succs" using Cons.prems(1) by simp
    show "\<forall>b \<in> set [move]. val b = val move" by simp
  qed
  show ?case
  proof (cases "bm = []")
    case True
    with one show ?thesis by simp
  next
    case False
    then have hd_in: "hd bm \<in> set bm" by simp
    with Cons.prems(1) have keys: "move \<in> fst ` set succs" "hd bm \<in> fst ` set succs"
      by auto
    have bmv: "\<And>b. b \<in> set bm \<Longrightarrow> val b = v" using Cons.prems(2) by blast
    have hdv: "val (hd bm) = v" using hd_in by (rule bmv)
    have step: "best_moves_loop succs (move # moves) bm =
           (if val move > v then best_moves_loop succs moves [move]
            else if val move = v then best_moves_loop succs moves (bm @ [move])
            else best_moves_loop succs moves bm)"
      using best_moves_loop_step [OF False keys, of moves] hdv by (simp only: val)
    consider (gt) "val move > v" | (eq) "val move = v" | (lt) "val move < v"
      using less_linear by blast
    then show ?thesis
    proof cases
      case gt
      have "filter (\<lambda>k. \<forall>k' \<in> set (bm @ move # moves). val k' \<le> val k) bm = []"
        unfolding filter_empty_conv
      proof
        fix b assume "b \<in> set bm"
        then have "val b = v" by (rule bmv)
        with gt have "\<not> val move \<le> val b" by simp
        then show "\<not> (\<forall>k' \<in> set (bm @ move # moves). val k' \<le> val b)" by simp
      qed
      moreover have "filter (\<lambda>k. \<forall>k' \<in> set (bm @ move # moves). val k' \<le> val k) (move # moves)
          = filter (\<lambda>k. \<forall>k' \<in> set ([move] @ moves). val k' \<le> val k) (move # moves)"
      proof (rule filter_cong [OF refl])
        fix k assume "k \<in> set (move # moves)"
        show "(\<forall>k' \<in> set (bm @ move # moves). val k' \<le> val k)
            = (\<forall>k' \<in> set ([move] @ moves). val k' \<le> val k)"
        proof
          assume "\<forall>k' \<in> set (bm @ move # moves). val k' \<le> val k"
          then show "\<forall>k' \<in> set ([move] @ moves). val k' \<le> val k" by simp
        next
          assume a: "\<forall>k' \<in> set ([move] @ moves). val k' \<le> val k"
          then have "val move \<le> val k" by simp
          with gt have "v \<le> val k" by simp
          with bmv have "\<And>b. b \<in> set bm \<Longrightarrow> val b \<le> val k" by simp
          with a show "\<forall>k' \<in> set (bm @ move # moves). val k' \<le> val k" by auto
        qed
      qed
      ultimately have "filter (\<lambda>k. \<forall>k' \<in> set (bm @ move # moves). val k' \<le> val k)
          (bm @ move # moves)
          = filter (\<lambda>k. \<forall>k' \<in> set ([move] @ moves). val k' \<le> val k) ([move] @ moves)"
        by simp
      with one step gt show ?thesis by (simp only: if_True)
    next
      case eq
      have "best_moves_loop succs moves (bm @ [move]) =
          Inr (filter (\<lambda>k. \<forall>k' \<in> set ((bm @ [move]) @ moves). val k' \<le> val k)
                 ((bm @ [move]) @ moves))"
      proof (rule Cons.IH [where v = v])
        show "set (bm @ [move]) \<union> set moves \<subseteq> fst ` set succs" using Cons.prems(1) by simp
        show "\<forall>b \<in> set (bm @ [move]). val b = v" using bmv eq by simp
      qed
      then have "best_moves_loop succs moves (bm @ [move]) =
          Inr (filter (\<lambda>k. \<forall>k' \<in> set (bm @ move # moves). val k' \<le> val k) (bm @ move # moves))"
        by simp
      with step eq show ?thesis by (simp del: best_moves_loop.simps)
    next
      case lt
      have rec: "best_moves_loop succs moves bm =
          Inr (filter (\<lambda>k. \<forall>k' \<in> set (bm @ moves). val k' \<le> val k) (bm @ moves))"
      proof (rule Cons.IH [where v = v])
        show "set bm \<union> set moves \<subseteq> fst ` set succs" using Cons.prems(1) by simp
        show "\<forall>b \<in> set bm. val b = v" using bmv by simp
      qed
      have m: "\<not> (\<forall>k' \<in> set (bm @ move # moves). val k' \<le> val move)"
      proof -
        have "hd bm \<in> set (bm @ move # moves)" using hd_in by simp
        moreover have "\<not> val (hd bm) \<le> val move" using lt hdv by simp
        ultimately show ?thesis by blast
      qed
      have "\<And>k. k \<in> set (bm @ moves) \<Longrightarrow>
          (\<forall>k' \<in> set (bm @ move # moves). val k' \<le> val k)
            = (\<forall>k' \<in> set (bm @ moves). val k' \<le> val k)"
      proof
        fix k assume "\<forall>k' \<in> set (bm @ move # moves). val k' \<le> val k"
        then show "\<forall>k' \<in> set (bm @ moves). val k' \<le> val k" by simp
      next
        fix k assume a: "\<forall>k' \<in> set (bm @ moves). val k' \<le> val k"
        with hd_in have "val (hd bm) \<le> val k" by simp
        with lt hdv have "val move \<le> val k" by simp
        with a show "\<forall>k' \<in> set (bm @ move # moves). val k' \<le> val k" by auto
      qed
      then have fc: "filter (\<lambda>k. \<forall>k' \<in> set (bm @ move # moves). val k' \<le> val k) (bm @ moves)
          = filter (\<lambda>k. \<forall>k' \<in> set (bm @ moves). val k' \<le> val k) (bm @ moves)"
        by (rule filter_cong [OF refl])
      define P where "P = (\<lambda>k. \<forall>k' \<in> set (bm @ move # moves). val k' \<le> val k)"
      have "\<not> P move" unfolding P_def by (rule m)
      then have fp: "filter P (bm @ move # moves) = filter P (bm @ moves)" by simp
      from fp fc have "filter (\<lambda>k. \<forall>k' \<in> set (bm @ move # moves). val k' \<le> val k)
          (bm @ move # moves)
          = filter (\<lambda>k. \<forall>k' \<in> set (bm @ moves). val k' \<le> val k) (bm @ moves)"
        unfolding P_def by (rule trans)
      moreover from lt have "\<not> val move > v" "val move \<noteq> v" by simp_all
      ultimately show ?thesis using rec step by (simp only: if_False)
    qed
  qed
qed



lemma set_successors_entries:
  assumes "(k, c) \<in> set (set_successors adv st moves [])"
  shows "k \<in> set moves \<and> c = MinimaxNode_init (adv st k)"
proof -
  have "distinct (map fst (set_successors adv st moves []))"
    by (rule distinct_set_successors) simp
  with assms have "map_of (set_successors adv st moves []) k = Some c" by simp
  then show ?thesis by (auto simp: map_of_set_successors split: if_splits)
qed

lemma randint_index:
  assumes "xs \<noteq> []"
  shows "\<exists>i < length xs. randint rnd 0 (int (length xs) - 1) = Inr (int i)"
proof -
  from assms have l: "0 < int (length xs)" by simp
  then have "int rnd mod int (length xs) < int (length xs)" "0 \<le> int rnd mod int (length xs)"
    by simp_all
  then have "nat (int rnd mod int (length xs)) < length xs
      \<and> int (nat (int rnd mod int (length xs))) = int rnd mod int (length xs)"
    by simp
  moreover have "randint rnd 0 (int (length xs) - 1) = Inr (int rnd mod int (length xs))"
    using l by (simp add: randint_def)
  ultimately show ?thesis by metis
qed

lemma randint_any:
  assumes "i < length xs"
  shows "randint i 0 (int (length xs) - 1) = Inr (int i)"
  using assms by (cases xs) (simp_all add: randint_def)


text \<open>
  Claim C5. Let the state be non-terminal with at least one legal move, let the player's
  depth be at least 1, and let the search of every successor return normally. Then the
  search from a fresh root returns, and whatever the random source yields, \<open>play\<close>
  returns a move that is one of the legal moves of the state and whose successor of the
  root has the maximum value among all successors of the root; conversely every move
  whose successor has that maximum value is returned for some outcome of the random
  source.
\<close>

theorem play_returns_best_move:
  assumes nt: "\<not> is_terminal st" and d: "1 \<le> self_depth self" and moves: "glm st \<noteq> []"
    and ch: "\<forall>m \<in> set (glm st). \<exists>v c'.
               minimax fuel glm adv (MinimaxNode_init (adv st m)) (self_depth self - 1)
                 (self_role self) (self_heur self) = Some (Inr (v, c'))"
  shows "\<exists>v root.
           minimax (Suc fuel) glm adv (MinimaxNode_init st) (self_depth self) (self_role self)
             (self_heur self) = Some (Inr (v, root))
         \<and> (\<forall>rnd. \<exists>m c. play (Suc fuel) glm adv self rnd st = Some (Inr m)
                \<and> m \<in> set (glm st) \<and> (m, c) \<in> set (successors root)
                \<and> nvalue c = Max (set (map (nvalue \<circ> snd) (successors root))))
         \<and> (\<forall>(m, c) \<in> set (successors root).
                nvalue c = Max (set (map (nvalue \<circ> snd) (successors root)))
                \<longrightarrow> (\<exists>rnd. play (Suc fuel) glm adv self rnd st = Some (Inr m)))"
proof -
  let ?node = "MinimaxNode_init st"
  let ?succs = "set_successors adv (nstate ?node) (glm (nstate ?node)) (successors ?node)"
  have st: "nstate ?node = st" and su: "successors ?node = []"
    by (simp_all add: MinimaxNode_init_def)
  have nt': "\<not> is_terminal (nstate ?node)" using nt by (simp add: st)
  have d': "0 < self_depth self" using d by simp
  have ch': "\<forall>kc \<in> set ?succs. \<exists>v c'.
      minimax fuel glm adv (snd kc) (self_depth self - 1) (self_role self) (self_heur self)
        = Some (Inr (v, c'))"
  proof
    fix kc assume "kc \<in> set ?succs"
    then have "(fst kc, snd kc) \<in> set (set_successors adv st (glm st) [])"
      by (simp add: st su)
    then have "fst kc \<in> set (glm st) \<and> snd kc = MinimaxNode_init (adv st (fst kc))"
      by (rule set_successors_entries)
    with ch show "\<exists>v c'.
      minimax fuel glm adv (snd kc) (self_depth self - 1) (self_role self) (self_heur self)
        = Some (Inr (v, c'))" by auto
  qed
  from minimax_expand [OF nt' d' refl ch'] obtain succs' best where
    run: "minimax (Suc fuel) glm adv ?node (self_depth self) (self_role self) (self_heur self)
            = Some (Inr (best, Node (nstate ?node) best succs'))"
    and all2: "list_all2 (evaluated (\<lambda>child. minimax fuel glm adv child (self_depth self - 1)
                 (self_role self) (self_heur self))) ?succs succs'"
    by blast
  define root where "root = Node (nstate ?node) best succs'"
  have sr: "successors root = succs'" by (simp add: root_def)
  define keys where "keys = map fst succs'"
  define val where "val = (\<lambda>k. nvalue (the (map_of succs' k)))"
  have keys_eq: "keys = map fst ?succs"
    using all2 by (simp add: keys_def list_all2_evaluated_keys)
  have dk: "distinct keys"
    unfolding keys_eq by (rule distinct_set_successors) (simp add: su)
  have sk: "set keys = set (glm st)"
    unfolding keys_eq by (simp add: keys_set_successors st su)
  have kne: "keys \<noteq> []" using sk moves by auto
  have lookup: "\<And>m c. (m, c) \<in> set succs' \<Longrightarrow> val m = nvalue c"
    using dk by (simp add: val_def keys_def)
  have vals: "set (map (nvalue \<circ> snd) succs') = val ` set keys"
  proof -
    have "\<And>kc. kc \<in> set succs' \<Longrightarrow> (nvalue \<circ> snd) kc = (val \<circ> fst) kc"
      using lookup by (metis comp_apply prod.collapse)
    then have "map (nvalue \<circ> snd) succs' = map (val \<circ> fst) succs'" by simp
    then show ?thesis by (simp add: keys_def image_comp)
  qed
  define bm where "bm = filter (\<lambda>k. \<forall>k' \<in> set keys. val k' \<le> val k) keys"
  have loop: "best_moves_loop succs' keys [] = Inr bm"
  proof -
    have "best_moves_loop succs' keys [] =
        Inr (filter (\<lambda>k. \<forall>k' \<in> set ([] @ keys). val k' \<le> val k) ([] @ keys))"
      by (rule best_moves_loop_filter [where v = NegInf]) (simp_all add: val_def keys_def)
    then show ?thesis by (simp add: bm_def)
  qed
  have in_bm: "\<And>m. m \<in> set bm \<longleftrightarrow> m \<in> set keys \<and> val m = Max (val ` set keys)"
  proof -
    fix m
    have fin: "finite (val ` set keys)" and ne: "val ` set keys \<noteq> {}" using kne by simp_all
    show "m \<in> set bm \<longleftrightarrow> m \<in> set keys \<and> val m = Max (val ` set keys)"
    proof
      assume "m \<in> set bm"
      then have mk: "m \<in> set keys" and ge: "\<forall>k' \<in> set keys. val k' \<le> val m"
        by (simp_all add: bm_def)
      have "Max (val ` set keys) = val m"
        by (rule Max_eqI) (use mk ge fin in auto)
      with mk show "m \<in> set keys \<and> val m = Max (val ` set keys)" by simp
    next
      assume a: "m \<in> set keys \<and> val m = Max (val ` set keys)"
      then have "\<forall>k' \<in> set keys. val k' \<le> val m" using fin by simp
      with a show "m \<in> set bm" by (simp add: bm_def)
    qed
  qed
  have bne: "bm \<noteq> []"
  proof -
    have "Max (val ` set keys) \<in> val ` set keys" using kne by (intro Max_in) simp_all
    then obtain m where "m \<in> set keys" "val m = Max (val ` set keys)" by auto
    then have "m \<in> set bm" by (simp add: in_bm)
    then show ?thesis by auto
  qed
  have play_eq: "\<And>rnd. play (Suc fuel) glm adv self rnd st =
      Some (case randint rnd 0 (int (length bm) - 1) of Inl e \<Rightarrow> Inl e | Inr k \<Rightarrow> py_index bm k)"
    using run loop by (simp add: play_def keys_def del: minimax.simps)
  have a: "\<forall>rnd. \<exists>m c. play (Suc fuel) glm adv self rnd st = Some (Inr m)
      \<and> m \<in> set (glm st) \<and> (m, c) \<in> set (successors root)
      \<and> nvalue c = Max (set (map (nvalue \<circ> snd) (successors root)))"
  proof
    fix rnd
    from randint_index [OF bne, of rnd] obtain i where
      i: "i < length bm" "randint rnd 0 (int (length bm) - 1) = Inr (int i)" by blast
    then have p: "play (Suc fuel) glm adv self rnd st = Some (Inr (bm ! i))"
      by (simp add: play_eq py_index_nat)
    from i have "bm ! i \<in> set bm" by simp
    then have mk: "bm ! i \<in> set keys" and mv: "val (bm ! i) = Max (val ` set keys)"
      by (simp_all add: in_bm)
    from mk obtain c where c: "(bm ! i, c) \<in> set succs'" by (auto simp: keys_def)
    then have "nvalue c = Max (set (map (nvalue \<circ> snd) succs'))"
      using lookup [OF c] mv vals by simp
    with p mk c show "\<exists>m c. play (Suc fuel) glm adv self rnd st = Some (Inr m)
      \<and> m \<in> set (glm st) \<and> (m, c) \<in> set (successors root)
      \<and> nvalue c = Max (set (map (nvalue \<circ> snd) (successors root)))"
      unfolding sr sk [symmetric] by blast
  qed
  have b: "\<forall>(m, c) \<in> set (successors root).
      nvalue c = Max (set (map (nvalue \<circ> snd) (successors root)))
      \<longrightarrow> (\<exists>rnd. play (Suc fuel) glm adv self rnd st = Some (Inr m))"
  proof (clarify)
    fix m c assume mc: "(m, c) \<in> set (successors root)"
      and mx: "nvalue c = Max (set (map (nvalue \<circ> snd) (successors root)))"
    from mc have mc': "(m, c) \<in> set succs'" by (simp add: sr)
    then have "m \<in> set keys" by (force simp: keys_def)
    moreover have "val m = Max (val ` set keys)" using lookup [OF mc'] mx vals by (simp add: sr)
    ultimately have "m \<in> set bm" by (simp add: in_bm)
    then obtain i where i: "i < length bm" "bm ! i = m" by (auto simp: in_set_conv_nth)
    then have "play (Suc fuel) glm adv self i st = Some (Inr m)"
      by (simp add: play_eq randint_any py_index_nat)
    then show "\<exists>rnd. play (Suc fuel) glm adv self rnd st = Some (Inr m)" ..
  qed
  from run a b show ?thesis unfolding root_def [symmetric] by blast
qed

lemma three_line_heur_first_moves:
  "list_all (\<lambda>m. three_line_heur (advance_state (initial_state 7 6) m) ''x'' = Inr (Fin 0))
     (get_legal_moves (initial_state 7 6))"
  by code_simp

theorem play_returns_best_move_witness:
  "\<not> is_terminal (initial_state 7 6) \<and> 1 \<le> self_depth three_line_player
   \<and> get_legal_moves (initial_state 7 6) \<noteq> []
   \<and> (\<forall>rnd. \<exists>m. play (Suc 1) get_legal_moves advance_state three_line_player rnd
                   (initial_state 7 6) = Some (Inr m)
               \<and> m \<in> set (get_legal_moves (initial_state 7 6)))"
proof -
  have nt: "\<not> is_terminal (initial_state 7 6)" by (simp add: initial_state_def)
  have d: "1 \<le> self_depth three_line_player" by (simp add: three_line_player_def)
  have moves: "get_legal_moves (initial_state 7 6) \<noteq> []" by (simp add: initial_moves)
  have ch: "\<forall>m \<in> set (get_legal_moves (initial_state 7 6)). \<exists>v c'.
      minimax 1 get_legal_moves advance_state (MinimaxNode_init (advance_state (initial_state 7 6) m))
        (self_depth three_line_player - 1) (self_role three_line_player)
        (self_heur three_line_player) = Some (Inr (v, c'))"
    using three_line_heur_first_moves
    by (simp add: three_line_player_def list_all_iff MinimaxNode_init_def)
  from play_returns_best_move [OF nt d moves ch] nt d moves show ?thesis by blast
qed

section \<open>When no move can be chosen\<close>

text \<open>
  Claim C10. For a terminal state, and for any state when the player's depth is 0,
  \<open>play\<close> raises an exception instead of returning a move: the search stops in its base
  case, so the root has no successors, the list of best moves stays empty, and
  \<^verbatim>\<open>randint(0, -1)\<close> raises \<^verbatim>\<open>ValueError\<close> (unless the heuristic has raised before).
  With claim C5 this makes a non-terminal state and a depth of at least 1 the
  precondition under which \<open>play\<close> returns a move.
\<close>

theorem play_fails:
  assumes "is_terminal st \<or> self_depth self = 0"
  shows "play (Suc fuel) glm adv self rnd st =
           Some (Inl (case self_heur self st (self_role self) of
                        Inl e \<Rightarrow> e | Inr v \<Rightarrow> ValueError))
       \<and> (\<forall>v root. minimax (Suc fuel) glm adv (MinimaxNode_init st) (self_depth self)
                      (self_role self) (self_heur self) = Some (Inr (v, root))
            \<longrightarrow> successors root = []
              \<and> best_moves_loop (successors root) (map fst (successors root)) [] = Inr []
              \<and> randint rnd 0 (int (length ([] :: int list)) - 1) = Inl ValueError)"
  using assms
  by (auto simp: play_def MinimaxNode_init_def randint_def split: sum.splits)

theorem play_fails_witness:
  "is_terminal won_by_o
   \<and> play (Suc 0) get_legal_moves advance_state three_line_player 0 won_by_o
       = Some (Inl ValueError)
   \<and> self_depth (three_line_player\<lparr>self_depth := 0\<rparr>) = 0
   \<and> play (Suc 0) get_legal_moves advance_state (three_line_player\<lparr>self_depth := 0\<rparr>) 0
         (initial_state 7 6) = Some (Inl ValueError)"
proof -
  have t: "is_terminal won_by_o" by (simp add: won_by_o_eval)
  have h: "three_line_heur won_by_o ''x'' = Inr (Fin (- 100))"
    by (simp add: three_line_heur_def won_by_o_eval)
  have h0: "three_line_heur (initial_state 7 6) ''x'' = Inr (Fin 0)" by code_simp
  from play_fails [of won_by_o three_line_player 0 get_legal_moves advance_state 0]
    play_fails [of "initial_state 7 6" "three_line_player\<lparr>self_depth := 0\<rparr>" 0
      get_legal_moves advance_state 0] t h h0
  show ?thesis by (simp add: three_line_player_def)
qed

section \<open>Values within the horizon of the search\<close>


lemma list_all2_evaluated_source:
  assumes "list_all2 (evaluated search) succs succs'" and "(m, c') \<in> set succs'"
  shows "\<exists>c. (m, c) \<in> set succs \<and> search c = Some (Inr (nvalue c', c'))"
proof -
  from assms(2) obtain i where i: "i < length succs'" "succs' ! i = (m, c')"
    by (auto simp: in_set_conv_nth)
  with assms(1) have e: "evaluated search (succs ! i) (m, c')" and l: "i < length succs"
    by (auto simp: list_all2_conv_all_nth)
  obtain m0 c where mc: "succs ! i = (m0, c)" by (cases "succs ! i")
  with e have "m0 = m" "search c = Some (Inr (nvalue c', c'))"
    by (simp_all add: evaluated_def)
  moreover from l mc have "(m0, c) \<in> set succs" by (metis nth_mem)
  ultimately show ?thesis by blast
qed

lemma minimax_bounded:
  assumes h: "\<And>s. P s \<Longrightarrow> \<not> is_terminal s \<and> (\<exists>x. h s max_role = Inr (Fin x) \<and> lo \<le> x \<and> x \<le> hi)"
  shows "all_within P glm adv d st \<Longrightarrow> has_moves_within glm adv d st \<Longrightarrow>
         \<exists>x node'. minimax (Suc d + k) glm adv (MinimaxNode_init st) (int d) max_role h =
                      Some (Inr (Fin x, node'))
                  \<and> lo \<le> x \<and> x \<le> hi
                  \<and> (\<forall>w \<in> set (node_values node'). \<exists>y. w = Fin y \<and> lo \<le> y \<and> y \<le> hi)"
proof (induction d arbitrary: st)
  case 0
  then have "P st" by simp
  from h [OF this] obtain x where "h st max_role = Inr (Fin x)" "lo \<le> x" "x \<le> hi" by blast
  then show ?case by (simp add: MinimaxNode_init_def)
next
  case (Suc d)
  let ?node = "MinimaxNode_init st"
  let ?fuel = "Suc d + k"
  let ?search = "\<lambda>child. minimax ?fuel glm adv child (int (Suc d) - 1) max_role h"
  let ?succs = "set_successors adv (nstate ?node) (glm (nstate ?node)) (successors ?node)"
  have st: "nstate ?node = st" and su: "successors ?node = []"
    by (simp_all add: MinimaxNode_init_def)
  from Suc.prems have P: "P st" and moves: "glm st \<noteq> []" by simp_all
  from h [OF P] have nt: "\<not> is_terminal (nstate ?node)" by (simp add: st)
  have d: "0 < int (Suc d)" by simp
  have child: "\<And>m. m \<in> set (glm st) \<Longrightarrow>
      \<exists>x node'. ?search (MinimaxNode_init (adv st m)) = Some (Inr (Fin x, node'))
        \<and> lo \<le> x \<and> x \<le> hi
        \<and> (\<forall>w \<in> set (node_values node'). \<exists>y. w = Fin y \<and> lo \<le> y \<and> y \<le> hi)"
    using Suc.IH Suc.prems by simp
  have entries: "\<And>m c. (m, c) \<in> set ?succs \<Longrightarrow>
      m \<in> set (glm st) \<and> c = MinimaxNode_init (adv st m)"
    unfolding st su by (rule set_successors_entries)
  have ch: "\<forall>kc \<in> set ?succs. \<exists>v c'. ?search (snd kc) = Some (Inr (v, c'))"
  proof
    fix kc assume "kc \<in> set ?succs"
    then have "(fst kc, snd kc) \<in> set ?succs" by simp
    from entries [OF this] child [of "fst kc"]
    show "\<exists>v c'. ?search (snd kc) = Some (Inr (v, c'))" by auto
  qed
  from minimax_expand [OF nt d refl ch] obtain succs' best where
    run: "minimax (Suc ?fuel) glm adv ?node (int (Suc d)) max_role h =
            Some (Inr (best, Node (nstate ?node) best succs'))"
    and all2: "list_all2 (evaluated ?search) ?succs succs'"
    and best: "best =
          (if turn (nstate ?node) = max_role
           then (if succs' = [] then NegInf else Max (set (map (nvalue \<circ> snd) succs')))
           else (if succs' = [] then PosInf else Min (set (map (nvalue \<circ> snd) succs'))))"
    by blast
  have kids: "\<And>m c'. (m, c') \<in> set succs' \<Longrightarrow>
      \<exists>x. nvalue c' = Fin x \<and> lo \<le> x \<and> x \<le> hi
        \<and> (\<forall>w \<in> set (node_values c'). \<exists>y. w = Fin y \<and> lo \<le> y \<and> y \<le> hi)"
  proof -
    fix m c' assume "(m, c') \<in> set succs'"
    with all2 obtain c where c: "(m, c) \<in> set ?succs" "?search c = Some (Inr (nvalue c', c'))"
      using list_all2_evaluated_source by blast
    from entries [OF c(1)] child [of m] c(2)
    show "\<exists>x. nvalue c' = Fin x \<and> lo \<le> x \<and> x \<le> hi
        \<and> (\<forall>w \<in> set (node_values c'). \<exists>y. w = Fin y \<and> lo \<le> y \<and> y \<le> hi)"
      by auto
  qed
  have "map fst succs' = map fst ?succs" using all2 by (rule list_all2_evaluated_keys)
  then have "fst ` set succs' = fst ` set ?succs" by (metis set_map)
  then have "fst ` set succs' = set (glm st)"
    by (simp add: keys_set_successors st su)
  with moves have ne: "succs' \<noteq> []" by auto
  let ?vals = "set (map (nvalue \<circ> snd) succs')"
  have fin: "finite ?vals" and vne: "?vals \<noteq> {}" using ne by simp_all
  have "best \<in> ?vals"
    using best ne Max_in [OF fin vne] Min_in [OF fin vne] by (simp split: if_splits)
  then obtain m c' where mc: "(m, c') \<in> set succs'" "best = nvalue c'" by auto
  from kids [OF mc(1)] mc(2) obtain x where x: "best = Fin x" "lo \<le> x" "x \<le> hi" by auto
  have "\<forall>w \<in> set (node_values (Node (nstate ?node) best succs')).
      \<exists>y. w = Fin y \<and> lo \<le> y \<and> y \<le> hi"
    using x kids by fastforce
  with run x show ?case by (simp del: minimax.simps)
qed


text \<open>
  Claim C8. If neither the state nor any state at most \<open>d\<close> plies below it is terminal
  (and, as the contract of \<^verbatim>\<open>get_legal_moves\<close> promises for non-terminal states, every
  state that the search expands has a legal move), then \<open>minimax\<close> with \<open>zero_heur\<close>
  and depth \<open>d\<close> on a fresh node returns 0, and every node of the tree that it leaves
  has the value 0.
\<close>


theorem zero_heur_quiet_subtree:
  assumes "all_within (\<lambda>s. \<not> is_terminal s) glm adv d st"
    and "has_moves_within glm adv d st" and "d < fuel"
  shows "\<exists>node'. minimax fuel glm adv (MinimaxNode_init st) (int d) max_role zero_heur =
                    Some (Inr (Fin 0, node'))
               \<and> (\<forall>w \<in> set (node_values node'). w = Fin 0)"
proof -
  have h: "\<And>s. \<not> is_terminal s \<Longrightarrow>
      \<not> is_terminal s \<and> (\<exists>x. zero_heur s max_role = Inr (Fin x) \<and> 0 \<le> x \<and> x \<le> 0)"
    by (simp add: zero_heur_def)
  from assms(3) have f: "fuel = Suc d + (fuel - Suc d)" by simp
  from minimax_bounded [where P = "\<lambda>s. \<not> is_terminal s" and h = zero_heur
      and max_role = max_role and lo = 0 and hi = 0 and k = "fuel - Suc d", OF h assms(1,2)]
  show ?thesis unfolding f [symmetric] by fastforce
qed

lemma quiet_start:
  "all_within (\<lambda>s. \<not> is_terminal s) get_legal_moves advance_state 2 (initial_state 7 6)
   \<and> has_moves_within get_legal_moves advance_state 2 (initial_state 7 6)"
  by code_simp

theorem zero_heur_quiet_subtree_witness:
  "all_within (\<lambda>s. \<not> is_terminal s) get_legal_moves advance_state 2 (initial_state 7 6)
   \<and> has_moves_within get_legal_moves advance_state 2 (initial_state 7 6) \<and> (2::nat) < 3
   \<and> (\<exists>node'. minimax 3 get_legal_moves advance_state (MinimaxNode_init (initial_state 7 6))
                  2 ''o'' zero_heur = Some (Inr (Fin 0, node'))
              \<and> (\<forall>w \<in> set (node_values node'). w = Fin 0))"
proof -
  have l: "(2::nat) < 3" by simp
  from quiet_start have a: "all_within (\<lambda>s. \<not> is_terminal s) get_legal_moves advance_state 2
      (initial_state 7 6)"
    and b: "has_moves_within get_legal_moves advance_state 2 (initial_state 7 6)"
    by simp_all
  from zero_heur_quiet_subtree [OF a b l, of "''o''"] a b show ?thesis by simp
qed

section \<open>A negative depth\<close>



lemma minimax_negative_any:
  "depth < 0 \<Longrightarrow> depth' < 0 \<Longrightarrow>
   minimax fuel glm adv node depth max_role h = minimax fuel glm adv node depth' max_role h"
proof (induction fuel arbitrary: node depth depth')
  case 0
  show ?case by simp
next
  case (Suc fuel)
  have "(\<lambda>child. minimax fuel glm adv child (depth - 1) max_role h)
      = (\<lambda>child. minimax fuel glm adv child (depth' - 1) max_role h)"
  proof
    fix child
    show "minimax fuel glm adv child (depth - 1) max_role h
        = minimax fuel glm adv child (depth' - 1) max_role h"
      using Suc.prems by (intro Suc.IH) simp_all
  qed
  with Suc.prems show ?case by simp
qed

lemma eval_children_error:
  "eval_children search opr acc succs = Some (Inl e) \<Longrightarrow>
   \<exists>kc \<in> set succs. search (snd kc) = Some (Inl e)"
proof (induction succs arbitrary: acc)
  case Nil
  then show ?case by simp
next
  case (Cons kc succs)
  obtain m c where kc: "kc = (m, c)" by (cases kc)
  show ?case
  proof (cases "search c = Some (Inl e)")
    case True
    with kc show ?thesis by simp
  next
    case False
    with Cons.prems kc obtain v c' where "search c = Some (Inr (v, c'))"
      and "eval_children search opr (opr acc v) succs = Some (Inl e)"
      by (auto split: option.splits sum.splits)
    from Cons.IH [OF this(2)] show ?thesis by auto
  qed
qed

lemma minimax_error_from_heuristic:
  "minimax fuel glm adv node depth max_role h = Some (Inl e) \<Longrightarrow> \<exists>s. h s max_role = Inl e"
proof (induction fuel arbitrary: node depth)
  case 0
  then show ?case by simp
next
  case (Suc fuel)
  show ?case
  proof (cases "depth = 0 \<or> is_terminal (nstate node)")
    case True
    with Suc.prems show ?thesis by (auto split: sum.splits)
  next
    case False
    let ?search = "\<lambda>child. minimax fuel glm adv child (depth - 1) max_role h"
    let ?succs = "set_successors adv (nstate node) (glm (nstate node)) (successors node)"
    from False Suc.prems have
      "eval_children ?search max NegInf ?succs = Some (Inl e)
       \<or> eval_children ?search min PosInf ?succs = Some (Inl e)"
      by (auto simp: Let_def split: if_splits option.splits sum.splits)
    then show ?thesis
    proof
      assume "eval_children ?search max NegInf ?succs = Some (Inl e)"
      from eval_children_error [OF this] obtain kc where
        "kc \<in> set ?succs" and r: "?search (snd kc) = Some (Inl e)" by (elim bexE)
      from r show ?thesis by (rule Suc.IH)
    next
      assume "eval_children ?search min PosInf ?succs = Some (Inl e)"
      from eval_children_error [OF this] obtain kc where
        "kc \<in> set ?succs" and r: "?search (snd kc) = Some (Inl e)" by (elim bexE)
      from r show ?thesis by (rule Suc.IH)
    qed
  qed
qed

lemma minimax_negative_returns:
  assumes h: "returns_normally h max_role" and d: "depth < 0"
  shows "ends_within glm adv n st \<Longrightarrow>
         \<exists>v node'. minimax (Suc n + k) glm adv (MinimaxNode_init st) depth max_role h =
                      Some (Inr (v, node'))"
  using d
proof (induction n arbitrary: st depth)
  case 0
  from h obtain v where "h st max_role = Inr v" unfolding returns_normally_def by blast
  with 0 show ?case by (simp add: MinimaxNode_init_def)
next
  case (Suc n)
  let ?node = "MinimaxNode_init st"
  have st: "nstate ?node = st" and su: "successors ?node = []"
    by (simp_all add: MinimaxNode_init_def)
  show ?case
  proof (cases "is_terminal st")
    case True
    from h obtain v where "h st max_role = Inr v" unfolding returns_normally_def by blast
    with True show ?thesis by (simp add: MinimaxNode_init_def)
  next
    case False
    with Suc.prems have kids: "\<And>m. m \<in> set (glm st) \<Longrightarrow> ends_within glm adv n (adv st m)"
      by simp
    let ?search = "\<lambda>child. minimax (Suc n + k) glm adv child (depth - 1) max_role h"
    let ?succs = "set_successors adv st (glm st) []"
    have ch: "\<forall>kc \<in> set ?succs. \<exists>c'. ?search (snd kc) = Some (Inr (nvalue c', c'))"
    proof
      fix kc assume "kc \<in> set ?succs"
      then have "(fst kc, snd kc) \<in> set ?succs" by simp
      then have e: "fst kc \<in> set (glm st) \<and> snd kc = MinimaxNode_init (adv st (fst kc))"
        by (rule set_successors_entries)
      with kids have "ends_within glm adv n (adv st (fst kc))" by simp
      from Suc.IH [OF this, of "depth - 1"] Suc.prems(2) e
      obtain v c' where r: "?search (snd kc) = Some (Inr (v, c'))" by auto
      then have "nvalue c' = v" by (rule minimax_stores_value [THEN conjunct1])
      with r show "\<exists>c'. ?search (snd kc) = Some (Inr (nvalue c', c'))" by blast
    qed
    from eval_children_returns [OF ch, of max NegInf] eval_children_returns [OF ch, of min PosInf]
      False Suc.prems(2)
    show ?thesis by (auto simp: st su Let_def MinimaxNode_init_def)
  qed
qed


lemma eval_children_all_return:
  "eval_children search opr acc succs = Some (Inr r) \<Longrightarrow>
   \<forall>kc \<in> set succs. \<exists>v c'. search (snd kc) = Some (Inr (v, c'))"
proof (induction succs arbitrary: acc r)
  case Nil
  show ?case by simp
next
  case (Cons kc succs)
  obtain m c where kc: "kc = (m, c)" by (cases kc)
  from Cons.prems kc obtain v c' r' where
    c: "search c = Some (Inr (v, c'))"
    and rest: "eval_children search opr (opr acc v) succs = Some (Inr r')"
    by (auto split: option.splits sum.splits)
  from Cons.IH [OF rest] c kc show ?case by simp
qed

lemma minimax_negative_ends:
  "depth < 0 \<Longrightarrow> minimax fuel glm adv node depth max_role h = Some (Inr (v, node')) \<Longrightarrow>
   ends_within glm adv fuel (nstate node)"
proof (induction fuel arbitrary: node depth v node')
  case 0
  then show ?case by simp
next
  case (Suc fuel)
  show ?case
  proof (cases "is_terminal (nstate node)")
    case True
    then show ?thesis by simp
  next
    case False
    let ?search = "\<lambda>child. minimax fuel glm adv child (depth - 1) max_role h"
    let ?succs = "set_successors adv (nstate node) (glm (nstate node)) (successors node)"
    from False Suc.prems obtain opr start r where
      ev: "eval_children ?search opr start ?succs = Some (Inr r)"
      by (auto simp: Let_def split: if_splits option.splits sum.splits)
    note all = eval_children_all_return [OF ev]
    have "\<forall>m \<in> set (glm (nstate node)). ends_within glm adv fuel (adv (nstate node) m)"
    proof
      fix m assume "m \<in> set (glm (nstate node))"
      then have "map_of ?succs m = Some (MinimaxNode_init (adv (nstate node) m))"
        by (simp add: map_of_set_successors)
      then have "(m, MinimaxNode_init (adv (nstate node) m)) \<in> set ?succs"
        by (rule map_of_SomeD)
      with all obtain w c' where
        "?search (MinimaxNode_init (adv (nstate node) m)) = Some (Inr (w, c'))"
        by fastforce
      from Suc.IH [OF _ this] Suc.prems(1)
      show "ends_within glm adv fuel (adv (nstate node) m)"
        by (simp add: MinimaxNode_init_def)
    qed
    then show ?thesis by simp
  qed
qed

lemma minimax_nonterminal_unfold:
  assumes "depth \<noteq> 0" and "\<not> is_terminal (nstate node)"
  shows "minimax (Suc fuel) glm adv node depth max_role h =
     (case eval_children (\<lambda>child. minimax fuel glm adv child (depth - 1) max_role h)
             (if turn (nstate node) = max_role then max else min)
             (if turn (nstate node) = max_role then NegInf else PosInf)
             (set_successors adv (nstate node) (glm (nstate node)) (successors node)) of
        None \<Rightarrow> None
      | Some (Inl e) \<Rightarrow> Some (Inl e)
      | Some (Inr (best, succs')) \<Rightarrow> Some (Inr (best, Node (nstate node) best succs')))"
  using assms by (simp add: Let_def)

lemma returned_value_Some:
  "returned_value r \<noteq> None \<Longrightarrow> \<exists>v node'. r = Some (Inr (v, node'))"
  by (auto simp: returned_value_def split: option.splits sum.splits)

text \<open>
  Claim C4, as stated: a call with a negative depth is rejected with an error instead of
  recursing. The code does not do that. On a position that \<open>o\<close> has won, depth -1
  returns the heuristic value -100; on the empty board of 2 columns and 2 rows, depth
  -1 returns 0 after building the whole game tree of 19 nodes, four plies deep.
\<close>


theorem minimax_negative_depth_counterexample:
  "minimax 1 get_legal_moves advance_state (MinimaxNode_init won_by_o) (- 1) ''x'' zero_heur
     = Some (Inr (Fin (- 100), Node won_by_o (Fin (- 100)) []))
   \<and> returned_value
         (minimax 5 get_legal_moves advance_state (MinimaxNode_init (initial_state 2 2)) (- 1)
            ''x'' zero_heur) = Some (Fin 0)
   \<and> map_option tree_size
         (returned_node
            (minimax 5 get_legal_moves advance_state (MinimaxNode_init (initial_state 2 2)) (- 1)
               ''x'' zero_heur)) = Some 19"
proof (intro conjI)
  show "minimax 1 get_legal_moves advance_state (MinimaxNode_init won_by_o) (- 1) ''x'' zero_heur
     = Some (Inr (Fin (- 100), Node won_by_o (Fin (- 100)) []))"
    by (simp add: MinimaxNode_init_def zero_heur_def won_by_o_eval)
  show "returned_value
         (minimax 5 get_legal_moves advance_state (MinimaxNode_init (initial_state 2 2)) (- 1)
            ''x'' zero_heur) = Some (Fin 0)"
    by code_simp
  show "map_option tree_size
         (returned_node
            (minimax 5 get_legal_moves advance_state (MinimaxNode_init (initial_state 2 2)) (- 1)
               ''x'' zero_heur)) = Some 19"
    by code_simp
qed

text \<open>
  Claim C4, amended. \<open>minimax\<close> has no check of its depth argument and raises no
  exception of its own: every exception of a call is one that the heuristic raised.
  Depth 0 is the only base case that depends on the depth. With a negative depth a
  terminal node gets the heuristic value, and a non-terminal node is expanded like one
  at a positive depth: every legal move gets a successor, every successor is searched
  at depth - 1, which is negative again, and the node gets the maximum or minimum of
  the successors' values. So all negative depths give the same result, the search
  stops at terminal states only: a call that returns has found the end of every line
  of play within its nested calls, and it does return normally whenever the heuristic
  does and every line of play ends.
\<close>

theorem minimax_negative_depth:
  assumes "depth < 0"
  shows "(\<forall>depth' < 0. minimax fuel glm adv node depth' max_role h
                       = minimax fuel glm adv node depth max_role h)
       \<and> (\<forall>e. minimax fuel glm adv node depth max_role h = Some (Inl e)
              \<longrightarrow> (\<exists>s. h s max_role = Inl e))
       \<and> (is_terminal (nstate node)
            \<longrightarrow> minimax (Suc fuel) glm adv node depth max_role h =
                  (case h (nstate node) max_role of
                     Inl e \<Rightarrow> Some (Inl e)
                   | Inr v \<Rightarrow> Some (Inr (v, Node (nstate node) v (successors node)))))
       \<and> (returns_normally h max_role \<and> ends_within glm adv n st
            \<longrightarrow> (\<exists>v node'. minimax (Suc n + k) glm adv (MinimaxNode_init st) depth max_role h
                              = Some (Inr (v, node'))))
       \<and> (\<not> is_terminal (nstate node)
            \<longrightarrow> minimax (Suc fuel) glm adv node depth max_role h =
                  (case eval_children
                          (\<lambda>child. minimax fuel glm adv child (depth - 1) max_role h)
                          (if turn (nstate node) = max_role then max else min)
                          (if turn (nstate node) = max_role then NegInf else PosInf)
                          (set_successors adv (nstate node) (glm (nstate node))
                             (successors node)) of
                     None \<Rightarrow> None
                   | Some (Inl e) \<Rightarrow> Some (Inl e)
                   | Some (Inr (best, succs')) \<Rightarrow>
                       Some (Inr (best, Node (nstate node) best succs'))))
       \<and> (\<not> is_terminal (nstate node)
            \<and> (\<forall>kc \<in> set (set_successors adv (nstate node) (glm (nstate node))
                               (successors node)).
                  \<exists>v c'. minimax fuel glm adv (snd kc) (depth - 1) max_role h
                           = Some (Inr (v, c')))
            \<longrightarrow> (\<exists>succs' best.
                   minimax (Suc fuel) glm adv node depth max_role h =
                     Some (Inr (best, Node (nstate node) best succs'))
                 \<and> list_all2
                      (evaluated (\<lambda>child. minimax fuel glm adv child (depth - 1) max_role h))
                      (set_successors adv (nstate node) (glm (nstate node)) (successors node))
                      succs'
                 \<and> best =
                     (if turn (nstate node) = max_role
                      then (if succs' = [] then NegInf
                            else Max (set (map (nvalue \<circ> snd) succs')))
                      else (if succs' = [] then PosInf
                            else Min (set (map (nvalue \<circ> snd) succs'))))
                 \<and> (\<forall>m \<in> set (glm (nstate node)). \<exists>c'. (m, c') \<in> set succs' \<and>
                        minimax fuel glm adv (MinimaxNode_init (adv (nstate node) m))
                          (depth - 1) max_role h = Some (Inr (nvalue c', c')))
                 \<and> (successors node = [] \<and> distinct (glm (nstate node))
                      \<longrightarrow> map fst succs' = glm (nstate node))))
       \<and> (\<forall>v node'. minimax fuel glm adv node depth max_role h = Some (Inr (v, node'))
              \<longrightarrow> ends_within glm adv fuel (nstate node))"
proof -
  from assms have nz: "depth \<noteq> 0" by simp
  have c1: "\<forall>depth' < 0. minimax fuel glm adv node depth' max_role h
      = minimax fuel glm adv node depth max_role h"
  proof (intro allI impI)
    fix depth' :: int assume "depth' < 0"
    then show "minimax fuel glm adv node depth' max_role h
        = minimax fuel glm adv node depth max_role h"
      using assms by (rule minimax_negative_any)
  qed
  have c2: "\<forall>e. minimax fuel glm adv node depth max_role h = Some (Inl e)
      \<longrightarrow> (\<exists>s. h s max_role = Inl e)"
  proof (intro allI impI)
    fix e assume "minimax fuel glm adv node depth max_role h = Some (Inl e)"
    then show "\<exists>s. h s max_role = Inl e" by (rule minimax_error_from_heuristic)
  qed
  have c3: "is_terminal (nstate node)
      \<longrightarrow> minimax (Suc fuel) glm adv node depth max_role h =
            (case h (nstate node) max_role of
               Inl e \<Rightarrow> Some (Inl e)
             | Inr v \<Rightarrow> Some (Inr (v, Node (nstate node) v (successors node))))"
    by simp
  have c4: "returns_normally h max_role \<and> ends_within glm adv n st
      \<longrightarrow> (\<exists>v node'. minimax (Suc n + k) glm adv (MinimaxNode_init st) depth max_role h
                        = Some (Inr (v, node')))"
    using minimax_negative_returns [OF _ assms] by blast
  have c5: "\<not> is_terminal (nstate node)
      \<longrightarrow> minimax (Suc fuel) glm adv node depth max_role h =
            (case eval_children
                    (\<lambda>child. minimax fuel glm adv child (depth - 1) max_role h)
                    (if turn (nstate node) = max_role then max else min)
                    (if turn (nstate node) = max_role then NegInf else PosInf)
                    (set_successors adv (nstate node) (glm (nstate node))
                       (successors node)) of
               None \<Rightarrow> None
             | Some (Inl e) \<Rightarrow> Some (Inl e)
             | Some (Inr (best, succs')) \<Rightarrow>
                 Some (Inr (best, Node (nstate node) best succs')))"
    using minimax_nonterminal_unfold [OF nz] by blast
  have c6: "\<not> is_terminal (nstate node)
      \<and> (\<forall>kc \<in> set (set_successors adv (nstate node) (glm (nstate node))
                         (successors node)).
            \<exists>v c'. minimax fuel glm adv (snd kc) (depth - 1) max_role h
                     = Some (Inr (v, c')))
      \<longrightarrow> (\<exists>succs' best.
             minimax (Suc fuel) glm adv node depth max_role h =
               Some (Inr (best, Node (nstate node) best succs'))
           \<and> list_all2
                (evaluated (\<lambda>child. minimax fuel glm adv child (depth - 1) max_role h))
                (set_successors adv (nstate node) (glm (nstate node)) (successors node))
                succs'
           \<and> best =
               (if turn (nstate node) = max_role
                then (if succs' = [] then NegInf
                      else Max (set (map (nvalue \<circ> snd) succs')))
                else (if succs' = [] then PosInf
                      else Min (set (map (nvalue \<circ> snd) succs'))))
           \<and> (\<forall>m \<in> set (glm (nstate node)). \<exists>c'. (m, c') \<in> set succs' \<and>
                  minimax fuel glm adv (MinimaxNode_init (adv (nstate node) m))
                    (depth - 1) max_role h = Some (Inr (nvalue c', c')))
           \<and> (successors node = [] \<and> distinct (glm (nstate node))
                \<longrightarrow> map fst succs' = glm (nstate node)))"
  proof
    assume a: "\<not> is_terminal (nstate node)
      \<and> (\<forall>kc \<in> set (set_successors adv (nstate node) (glm (nstate node))
                         (successors node)).
            \<exists>v c'. minimax fuel glm adv (snd kc) (depth - 1) max_role h
                     = Some (Inr (v, c')))"
    then have nt: "\<not> is_terminal (nstate node)" by (rule conjunct1)
    from a have ch: "\<forall>kc \<in> set (set_successors adv (nstate node) (glm (nstate node))
                         (successors node)).
            \<exists>v c'. minimax fuel glm adv (snd kc) (depth - 1) max_role h
                     = Some (Inr (v, c'))" by (rule conjunct2)
    show "\<exists>succs' best.
             minimax (Suc fuel) glm adv node depth max_role h =
               Some (Inr (best, Node (nstate node) best succs'))
           \<and> list_all2
                (evaluated (\<lambda>child. minimax fuel glm adv child (depth - 1) max_role h))
                (set_successors adv (nstate node) (glm (nstate node)) (successors node))
                succs'
           \<and> best =
               (if turn (nstate node) = max_role
                then (if succs' = [] then NegInf
                      else Max (set (map (nvalue \<circ> snd) succs')))
                else (if succs' = [] then PosInf
                      else Min (set (map (nvalue \<circ> snd) succs'))))
           \<and> (\<forall>m \<in> set (glm (nstate node)). \<exists>c'. (m, c') \<in> set succs' \<and>
                  minimax fuel glm adv (MinimaxNode_init (adv (nstate node) m))
                    (depth - 1) max_role h = Some (Inr (nvalue c', c')))
           \<and> (successors node = [] \<and> distinct (glm (nstate node))
                \<longrightarrow> map fst succs' = glm (nstate node))"
      by (rule minimax_expand_nonzero [OF nt nz refl ch])
  qed
  have c7: "\<forall>v node'. minimax fuel glm adv node depth max_role h = Some (Inr (v, node'))
      \<longrightarrow> ends_within glm adv fuel (nstate node)"
  proof (intro allI impI)
    fix v node' assume "minimax fuel glm adv node depth max_role h = Some (Inr (v, node'))"
    with assms show "ends_within glm adv fuel (nstate node)" by (rule minimax_negative_ends)
  qed
  from c1 c2 c3 c4 c5 c6 c7 show ?thesis by (intro conjI)
qed

lemma small_board_ends:
  "ends_within get_legal_moves advance_state 4 (initial_state 2 2)
   \<and> \<not> ends_within get_legal_moves advance_state 3 (initial_state 2 2)"
  by code_simp

lemma small_board_start:
  "\<not> is_terminal (initial_state 2 2) \<and> get_legal_moves (initial_state 2 2) = [0, 1]"
  by code_simp

lemma small_board_children:
  "list_all (\<lambda>kc. returned_value
        (minimax 4 get_legal_moves advance_state (snd kc) (- 1 - 1) ''x'' zero_heur) \<noteq> None)
     (set_successors advance_state (initial_state 2 2) (get_legal_moves (initial_state 2 2)) [])"
  by code_simp

theorem minimax_negative_depth_witness:
  "(- 1 :: int) < 0
   \<and> minimax 5 get_legal_moves advance_state (MinimaxNode_init (initial_state 2 2)) (- 7) ''x''
         zero_heur
       = minimax 5 get_legal_moves advance_state (MinimaxNode_init (initial_state 2 2)) (- 1) ''x''
           zero_heur
   \<and> returns_normally zero_heur ''x''
   \<and> ends_within get_legal_moves advance_state 4 (initial_state 2 2)
   \<and> (\<exists>v node'. minimax 5 get_legal_moves advance_state (MinimaxNode_init (initial_state 2 2))
                    (- 1) ''x'' zero_heur = Some (Inr (v, node')))
   \<and> \<not> is_terminal (initial_state 2 2)
   \<and> (\<exists>succs' best.
         minimax 5 get_legal_moves advance_state (MinimaxNode_init (initial_state 2 2)) (- 1)
           ''x'' zero_heur = Some (Inr (best, Node (initial_state 2 2) best succs'))
         \<and> map fst succs' = [0, 1])
   \<and> \<not> ends_within get_legal_moves advance_state 3 (initial_state 2 2)
   \<and> returned_value
         (minimax 3 get_legal_moves advance_state (MinimaxNode_init (initial_state 2 2)) (- 1)
            ''x'' zero_heur) = None"
proof -
  let ?node = "MinimaxNode_init (initial_state 2 2)"
  have d: "(- 1 :: int) < 0" by simp
  have st: "nstate ?node = initial_state 2 2" and su: "successors ?node = []"
    by (simp_all add: MinimaxNode_init_def)
  from small_board_ends have e4: "ends_within get_legal_moves advance_state 4 (initial_state 2 2)"
    and e3: "\<not> ends_within get_legal_moves advance_state 3 (initial_state 2 2)"
    by simp_all
  from small_board_start have nt: "\<not> is_terminal (initial_state 2 2)"
    and moves: "get_legal_moves (initial_state 2 2) = [0, 1]"
    by simp_all
  note t5 = minimax_negative_depth [OF d, of 5 get_legal_moves advance_state ?node "''x''"
      zero_heur 4 "initial_state 2 2" 0]
  note t4 = minimax_negative_depth [OF d, of 4 get_legal_moves advance_state ?node "''x''"
      zero_heur 4 "initial_state 2 2" 0]
  note t3 = minimax_negative_depth [OF d, of 3 get_legal_moves advance_state ?node "''x''"
      zero_heur 4 "initial_state 2 2" 0]
  from t5 have "\<forall>depth' < 0.
      minimax 5 get_legal_moves advance_state ?node depth' ''x'' zero_heur
    = minimax 5 get_legal_moves advance_state ?node (- 1) ''x'' zero_heur"
    by (rule conjunct1)
  then have same: "minimax 5 get_legal_moves advance_state ?node (- 7) ''x'' zero_heur
    = minimax 5 get_legal_moves advance_state ?node (- 1) ''x'' zero_heur"
    by (elim allE [of _ "- 7"] impE) simp_all
  from t5 have "returns_normally zero_heur ''x''
      \<and> ends_within get_legal_moves advance_state 4 (initial_state 2 2)
      \<longrightarrow> (\<exists>v node'. minimax (Suc 4 + 0) get_legal_moves advance_state ?node (- 1) ''x''
            zero_heur = Some (Inr (v, node')))"
    by (elim conjE)
  with zero_heur_returns e4
  have "\<exists>v node'. minimax (Suc 4 + 0) get_legal_moves advance_state ?node (- 1) ''x''
      zero_heur = Some (Inr (v, node'))"
    by blast
  then have ret: "\<exists>v node'. minimax 5 get_legal_moves advance_state ?node (- 1) ''x''
      zero_heur = Some (Inr (v, node'))"
    by (simp add: eval_nat_numeral del: minimax.simps)
  have ch: "\<forall>kc \<in> set (set_successors advance_state (nstate ?node)
               (get_legal_moves (nstate ?node)) (successors ?node)).
      \<exists>v c'. minimax 4 get_legal_moves advance_state (snd kc) (- 1 - 1) ''x'' zero_heur
               = Some (Inr (v, c'))"
    using small_board_children returned_value_Some
    by (simp add: st su list_all_iff del: minimax.simps)
  from t4 have "\<not> is_terminal (nstate ?node)
      \<and> (\<forall>kc \<in> set (set_successors advance_state (nstate ?node)
               (get_legal_moves (nstate ?node)) (successors ?node)).
            \<exists>v c'. minimax 4 get_legal_moves advance_state (snd kc) (- 1 - 1) ''x'' zero_heur
                     = Some (Inr (v, c')))
      \<longrightarrow> (\<exists>succs' best.
             minimax (Suc 4) get_legal_moves advance_state ?node (- 1) ''x'' zero_heur =
               Some (Inr (best, Node (nstate ?node) best succs'))
           \<and> list_all2
                (evaluated (\<lambda>child. minimax 4 get_legal_moves advance_state child (- 1 - 1)
                              ''x'' zero_heur))
                (set_successors advance_state (nstate ?node) (get_legal_moves (nstate ?node))
                   (successors ?node))
                succs'
           \<and> best =
               (if turn (nstate ?node) = ''x''
                then (if succs' = [] then NegInf
                      else Max (set (map (nvalue \<circ> snd) succs')))
                else (if succs' = [] then PosInf
                      else Min (set (map (nvalue \<circ> snd) succs'))))
           \<and> (\<forall>m \<in> set (get_legal_moves (nstate ?node)). \<exists>c'. (m, c') \<in> set succs' \<and>
                  minimax 4 get_legal_moves advance_state
                    (MinimaxNode_init (advance_state (nstate ?node) m))
                    (- 1 - 1) ''x'' zero_heur = Some (Inr (nvalue c', c')))
           \<and> (successors ?node = [] \<and> distinct (get_legal_moves (nstate ?node))
                \<longrightarrow> map fst succs' = get_legal_moves (nstate ?node)))"
    by (elim conjE)
  with nt ch obtain succs' best where
    run: "minimax (Suc 4) get_legal_moves advance_state ?node (- 1) ''x'' zero_heur =
            Some (Inr (best, Node (nstate ?node) best succs'))"
    and keys: "successors ?node = [] \<and> distinct (get_legal_moves (nstate ?node))
                \<longrightarrow> map fst succs' = get_legal_moves (nstate ?node)"
    unfolding st by blast
  from keys have k: "map fst succs' = [0, 1]" by (simp add: st su moves)
  from run have run5: "minimax 5 get_legal_moves advance_state ?node (- 1) ''x'' zero_heur =
      Some (Inr (best, Node (initial_state 2 2) best succs'))"
    by (simp add: st del: minimax.simps)
  from t3 have "\<forall>v node'. minimax 3 get_legal_moves advance_state ?node (- 1) ''x'' zero_heur
        = Some (Inr (v, node'))
      \<longrightarrow> ends_within get_legal_moves advance_state 3 (nstate ?node)"
    by (elim conjE)
  with e3 have "\<forall>v node'. minimax 3 get_legal_moves advance_state ?node (- 1) ''x'' zero_heur
      \<noteq> Some (Inr (v, node'))"
    unfolding st by blast
  then have none: "returned_value
      (minimax 3 get_legal_moves advance_state ?node (- 1) ''x'' zero_heur) = None"
    by (auto simp: returned_value_def simp del: minimax.simps split: option.splits sum.splits)
  have ex: "\<exists>succs' best.
      minimax 5 get_legal_moves advance_state ?node (- 1) ''x'' zero_heur
        = Some (Inr (best, Node (initial_state 2 2) best succs'))
      \<and> map fst succs' = [0, 1]"
  proof (intro exI conjI)
    show "minimax 5 get_legal_moves advance_state ?node (- 1) ''x'' zero_heur
        = Some (Inr (best, Node (initial_state 2 2) best succs'))" by (rule run5)
    show "map fst succs' = [0, 1]" by (rule k)
  qed
  from d same zero_heur_returns [of "''x''"] e4 ret nt ex e3 none show ?thesis
    by (intro conjI)
qed

section \<open>What \<open>three_line_heur\<close> counts\<close>


lemma cell_well_formed:
  assumes "well_formed st" and "coords_legal st c r"
  shows "cell st c r = Inr (mark st c r)"
proof -
  from assms have c: "0 \<le> c" "c < int (length (board st))" and r: "0 \<le> r" "r < num_rows st"
    by (simp_all add: well_formed_def coords_legal_def)
  then have "nat c < length (board st)" by simp
  then have "board st ! nat c \<in> set (board st)" by simp
  with assms(1) have "int (length (board st ! nat c)) = num_rows st"
    by (simp add: well_formed_def)
  with c r show ?thesis by (simp add: cell_def py_index_def mark_def)
qed

lemma for_loop_sum:
  assumes "\<And>x s. x \<in> set xs \<Longrightarrow> body x s = Inr (s + f x)"
  shows "for_loop xs body s = Inr (s + sum_list (map f xs))"
  using assms by (induction xs arbitrary: s) (simp_all add: add.assoc)

lemma dirs_cases: "dir < length col_dirs \<Longrightarrow> dir = 0 \<or> dir = 1 \<or> dir = 2 \<or> dir = 3"
  by (auto simp: col_dirs_def)

lemma middle_legal:
  assumes "coords_legal st i j" and "dir < length col_dirs"
    and "coords_legal st (i + 2 * col_dirs ! dir) (j + 2 * row_dirs ! dir)"
  shows "coords_legal st (i + col_dirs ! dir) (j + row_dirs ! dir)"
  using assms dirs_cases [OF assms(2)]
  by (auto simp: coords_legal_def col_dirs_def row_dirs_def)

lemma three_line_dir_contrib:
  assumes wf: "well_formed st" and ij: "coords_legal st i j" and d: "dir < length col_dirs"
    and occ: "mark st i j \<noteq> ''.''"
  shows "three_line_dir st max_role i j (mark st i j) dir result =
           Inr (result + three_line_contrib st max_role (i, j, dir))"
proof (cases "coords_legal st (i + 2 * col_dirs ! dir) (j + 2 * row_dirs ! dir)")
  case True
  from middle_legal [OF ij d True] have m: "coords_legal st (i + col_dirs ! dir) (j + row_dirs ! dir)" .
  show ?thesis
    using True occ
    by (simp add: three_line_dir_def three_line_contrib_def run_of_three_def Let_def
        cell_well_formed [OF wf True] cell_well_formed [OF wf m] eq_commute)
next
  case False
  then show ?thesis
    by (simp add: three_line_dir_def three_line_contrib_def run_of_three_def Let_def)
qed

lemma three_line_cell_contrib:
  assumes wf: "well_formed st" and ij: "coords_legal st i j"
  shows "three_line_cell st max_role i j result =
           Inr (result + sum_list (map (\<lambda>dir. three_line_contrib st max_role (i, j, dir))
                                    [0..<length col_dirs]))"
proof (cases "mark st i j = ''.''")
  case True
  then have "\<And>dir. three_line_contrib st max_role (i, j, dir) = 0"
    by (simp add: three_line_contrib_def run_of_three_def)
  with True show ?thesis
    by (simp add: three_line_cell_def cell_well_formed [OF wf ij])
next
  case False
  have "for_loop [0..<length col_dirs] (three_line_dir st max_role i j (mark st i j)) result =
      Inr (result + sum_list (map (\<lambda>dir. three_line_contrib st max_role (i, j, dir))
                                [0..<length col_dirs]))"
    by (rule for_loop_sum) (simp add: three_line_dir_contrib [OF wf ij _ False])
  with False show ?thesis
    by (simp add: three_line_cell_def cell_well_formed [OF wf ij])
qed

lemma py_range_legal:
  "i \<in> set (py_range (num_cols st)) \<Longrightarrow> j \<in> set (py_range (num_rows st)) \<Longrightarrow>
   coords_legal st i j"
  by (auto simp: py_range_def coords_legal_def)

lemma sum_list_product:
  "sum_list (map f (List.product xs ys)) =
     sum_list (map (\<lambda>x. sum_list (map (\<lambda>y. f (x, y)) ys)) xs)"
  by (induction xs) (simp_all add: comp_def)

lemma three_line_heur_sum:
  assumes wf: "well_formed st" and nt: "\<not> is_terminal st"
  shows "three_line_heur st max_role =
           Inr (Fin (sum_list (map (three_line_contrib st max_role) (line_starts st))))"
proof -
  let ?cell = "\<lambda>i j. sum_list (map (\<lambda>dir. three_line_contrib st max_role (i, j, dir))
                                   [0..<length col_dirs])"
  have rows: "\<And>i s. i \<in> set (py_range (num_cols st)) \<Longrightarrow>
      for_loop (py_range (num_rows st)) (three_line_cell st max_role i) s =
        Inr (s + sum_list (map (?cell i) (py_range (num_rows st))))"
    by (rule for_loop_sum) (simp add: three_line_cell_contrib [OF wf py_range_legal])
  have "for_loop (py_range (num_cols st))
          (\<lambda>i. for_loop (py_range (num_rows st)) (three_line_cell st max_role i)) 0 =
        Inr (0 + sum_list (map (\<lambda>i. sum_list (map (?cell i) (py_range (num_rows st))))
                             (py_range (num_cols st))))"
    by (rule for_loop_sum) (simp add: rows)
  moreover have "sum_list (map (three_line_contrib st max_role) (line_starts st)) =
      sum_list (map (\<lambda>i. sum_list (map (?cell i) (py_range (num_rows st))))
                  (py_range (num_cols st)))"
    by (simp add: line_starts_def sum_list_product)
  ultimately show ?thesis using nt by (simp add: three_line_heur_def)
qed

lemma sum_list_signed:
  assumes "\<And>t. \<not> (A t \<and> B t)"
  shows "sum_list (map (\<lambda>t. if A t then 1 else if B t then - 1 else (0::int)) ts) =
           int (length (filter A ts)) - int (length (filter B ts))"
  using assms by (induction ts) auto


text \<open>
  Claim C6, as stated: on a non-terminal state \<open>three_line_heur\<close> is the signed count of
  the starts of exact runs of three that have a fourth cell on the board beyond the
  run. At the position \<open>three_at_edge\<close> the marks of \<open>x\<close> fill the three rightmost cells
  of the bottom row, so no cell lies beyond the run: the count of the claim is 0, and
  \<open>three_line_heur\<close> returns 1.
\<close>

theorem three_line_heur_counts_counterexample:
  "\<not> is_terminal three_at_edge \<and> well_formed three_at_edge \<and> pieces three_at_edge = 5
   \<and> three_line_heur three_at_edge ''x'' = Inr (Fin 1)
   \<and> signed_count (exact_run_with_fourth three_at_edge) three_at_edge ''x'' = 0"
  by code_simp

text \<open>
  Claim C6, amended. On a non-terminal state with a well-formed board
  \<open>three_line_heur\<close> returns the signed count, over all occupied cells and the four
  directions (right, up-right, up, up-left), of the starts of a run of three: the cell
  two steps ahead is on the board, and the cells one and two steps ahead hold the mark
  of the cell. The count is +1 for a mark of the maximizing role and -1 for any other
  mark. No fourth cell is looked at: a run at the edge of the board counts, and so does
  each run of three inside a longer run.
\<close>

theorem three_line_heur_counts:
  assumes "well_formed st" and "\<not> is_terminal st"
  shows "three_line_heur st max_role = Inr (Fin (signed_count (run_of_three st) st max_role))"
proof -
  define A where "A = (\<lambda>(i, j, dir). run_of_three st (i, j, dir) \<and> mark st i j = max_role)"
  define B where "B = (\<lambda>(i, j, dir). run_of_three st (i, j, dir) \<and> mark st i j \<noteq> max_role)"
  have "three_line_contrib st max_role = (\<lambda>t. if A t then 1 else if B t then - 1 else 0)"
    by (auto simp: three_line_contrib_def A_def B_def fun_eq_iff)
  moreover have "sum_list (map (\<lambda>t. if A t then 1 else if B t then - 1 else (0::int))
      (line_starts st)) = int (length (filter A (line_starts st)))
        - int (length (filter B (line_starts st)))"
    by (rule sum_list_signed) (auto simp: A_def B_def)
  ultimately have "sum_list (map (three_line_contrib st max_role) (line_starts st)) =
      signed_count (run_of_three st) st max_role"
    by (simp add: signed_count_def A_def B_def)
  with three_line_heur_sum [OF assms] show ?thesis by simp
qed

theorem three_line_heur_counts_witness:
  "well_formed three_at_edge \<and> \<not> is_terminal three_at_edge
   \<and> three_line_heur three_at_edge ''x''
       = Inr (Fin (signed_count (run_of_three three_at_edge) three_at_edge ''x''))
   \<and> signed_count (run_of_three three_at_edge) three_at_edge ''x'' = 1"
proof -
  have wf: "well_formed three_at_edge" by code_simp
  have nt: "\<not> is_terminal three_at_edge" by code_simp
  have c: "signed_count (run_of_three three_at_edge) three_at_edge ''x'' = 1" by code_simp
  from three_line_heur_counts [OF wf nt, of "''x''"] wf nt c show ?thesis by simp
qed

section \<open>The range of the values\<close>


lemma sum_list_abs_le:
  "(\<And>t. t \<in> set ts \<Longrightarrow> \<bar>f t\<bar> \<le> b t) \<Longrightarrow> \<bar>sum_list (map f ts)\<bar> \<le> sum_list (map b (ts::'a list) :: int list)"
proof (induction ts)
  case Nil
  show ?case by simp
next
  case (Cons t ts)
  have "\<bar>f t\<bar> \<le> b t" by (rule Cons.prems) simp
  moreover have "\<bar>sum_list (map f ts)\<bar> \<le> sum_list (map b ts)"
    by (rule Cons.IH) (simp add: Cons.prems)
  ultimately show ?case by simp
qed

lemma three_line_contrib_bound:
  "\<bar>three_line_contrib st max_role (i, j, dir)\<bar> \<le>
     (if coords_legal st (i + 2 * col_dirs ! dir) (j + 2 * row_dirs ! dir) then 1 else 0)"
  by (simp add: three_line_contrib_def run_of_three_def)

lemma lines_on_standard_board:
  "sum_list (map (\<lambda>(i, j, dir).
       if 0 \<le> i + 2 * col_dirs ! dir \<and> i + 2 * col_dirs ! dir < 7
          \<and> 0 \<le> j + 2 * row_dirs ! dir \<and> j + 2 * row_dirs ! dir < 6 then 1 else 0)
     (List.product (py_range 7) (List.product (py_range 6) [0..<length col_dirs]))) = (98::int)"
  by code_simp

lemma three_line_heur_standard:
  assumes "standard_board st"
  shows "\<not> is_terminal st
         \<and> (\<exists>x. three_line_heur st max_role = Inr (Fin x) \<and> - 98 \<le> x \<and> x \<le> 98)"
proof -
  from assms have nt: "\<not> is_terminal st" and wf: "well_formed st"
    and c: "num_cols st = 7" and r: "num_rows st = 6"
    by (simp_all add: standard_board_def)
  let ?b = "\<lambda>(i, j, dir).
      if coords_legal st (i + 2 * col_dirs ! dir) (j + 2 * row_dirs ! dir) then 1 else (0::int)"
  let ?x = "sum_list (map (three_line_contrib st max_role) (line_starts st))"
  have "\<bar>?x\<bar> \<le> sum_list (map ?b (line_starts st))"
    by (rule sum_list_abs_le) (auto simp: three_line_contrib_bound)
  also have "sum_list (map ?b (line_starts st)) = 98"
    using lines_on_standard_board by (simp add: line_starts_def coords_legal_def c r)
  finally have "- 98 \<le> ?x \<and> ?x \<le> 98" by (simp add: abs_le_iff)
  with three_line_heur_sum [OF wf nt, of max_role] nt show ?thesis by simp
qed

lemma zero_heur_standard:
  assumes "standard_board st"
  shows "\<not> is_terminal st
         \<and> (\<exists>x. zero_heur st max_role = Inr (Fin x) \<and> - 98 \<le> x \<and> x \<le> 98)"
  using assms by (simp add: standard_board_def zero_heur_def)


text \<open>
  Claim C7, as stated: on a non-terminal state that is not one ply from a forced
  terminal outcome, the value that \<open>minimax\<close> computes with any of the three heuristics
  lies strictly between -100 and 100, and no heuristic reaches 100 or -100 on a
  non-terminal state. \<open>my_heuristic\<close> does: at \<open>quiet_position\<close>, reached by 26 legal
  moves from the empty board, no state within two plies is terminal, yet
  \<open>my_heuristic\<close> returns 112 for \<open>x\<close>, which is what \<open>minimax\<close> returns at depth 0, and
  at depth 1 \<open>minimax\<close> returns 124.
\<close>

theorem heuristic_value_bound_counterexample:
  "standard_board quiet_position \<and> pieces quiet_position = 26
   \<and> all_within non_terminal get_legal_moves advance_state 2 quiet_position
   \<and> my_heuristic quiet_position ''x'' = Inr (Fin 112)
   \<and> returned_value
         (minimax 1 get_legal_moves advance_state (MinimaxNode_init quiet_position) 0 ''x''
            my_heuristic) = Some (Fin 112)
   \<and> returned_value
         (minimax 2 get_legal_moves advance_state (MinimaxNode_init quiet_position) 1 ''x''
            my_heuristic) = Some (Fin 124)"
proof (intro conjI)
  show "standard_board quiet_position" by code_simp
  show "pieces quiet_position = 26" by code_simp
  show "all_within non_terminal get_legal_moves advance_state 2 quiet_position" by code_simp
  show "my_heuristic quiet_position ''x'' = Inr (Fin 112)" by code_simp
  show "returned_value
         (minimax 1 get_legal_moves advance_state (MinimaxNode_init quiet_position) 0 ''x''
            my_heuristic) = Some (Fin 112)" by code_simp
  show "returned_value
         (minimax 2 get_legal_moves advance_state (MinimaxNode_init quiet_position) 1 ''x''
            my_heuristic) = Some (Fin 124)" by code_simp
qed

text \<open>
  Claim C7, amended. The bound holds for \<open>zero_heur\<close> and \<open>three_line_heur\<close> on the board
  of 7 columns and 6 rows: if the state and every state within \<open>d\<close> plies of it is
  non-terminal with a well-formed board of that size (and every expanded state has a
  legal move), then \<open>minimax\<close> at depth \<open>d\<close> with either heuristic returns an integer
  strictly between -100 and 100, and so is the value of every node of the tree; at
  depth 0 this is the heuristic's own value. (\<open>zero_heur\<close> gives 0, and
  \<open>three_line_heur\<close> stays within 98, the number of places for a run of three on that
  board.) \<open>my_heuristic\<close> is not covered.
\<close>

theorem heuristic_value_bound:
  assumes "all_within standard_board glm adv d st" and "has_moves_within glm adv d st"
    and "d < fuel" and "h = zero_heur \<or> h = three_line_heur"
  shows "\<exists>x node'. minimax fuel glm adv (MinimaxNode_init st) (int d) max_role h =
                      Some (Inr (Fin x, node'))
                  \<and> - 100 < x \<and> x < 100
                  \<and> (\<forall>w \<in> set (node_values node'). \<exists>y. w = Fin y \<and> - 100 < y \<and> y < 100)"
proof -
  have b: "\<And>s. standard_board s \<Longrightarrow>
      \<not> is_terminal s \<and> (\<exists>x. h s max_role = Inr (Fin x) \<and> - 98 \<le> x \<and> x \<le> 98)"
    using assms(4) zero_heur_standard three_line_heur_standard by blast
  from assms(3) have f: "fuel = Suc d + (fuel - Suc d)" by simp
  from minimax_bounded [where P = standard_board and h = h and max_role = max_role
      and lo = "- 98" and hi = 98 and k = "fuel - Suc d", OF b assms(1,2)]
  obtain x node' where
    r: "minimax fuel glm adv (MinimaxNode_init st) (int d) max_role h = Some (Inr (Fin x, node'))"
    and x: "- 98 \<le> x" "x \<le> 98"
    and w: "\<forall>w \<in> set (node_values node'). \<exists>y. w = Fin y \<and> - 98 \<le> y \<and> y \<le> 98"
    unfolding f [symmetric] by blast
  from w have "\<forall>w \<in> set (node_values node'). \<exists>y. w = Fin y \<and> - 100 < y \<and> y < 100"
    by fastforce
  with r x show ?thesis by simp
qed

lemma standard_start:
  "all_within standard_board get_legal_moves advance_state 1 (initial_state 7 6)
   \<and> has_moves_within get_legal_moves advance_state 1 (initial_state 7 6)"
  by code_simp

theorem heuristic_value_bound_witness:
  "all_within standard_board get_legal_moves advance_state 1 (initial_state 7 6)
   \<and> has_moves_within get_legal_moves advance_state 1 (initial_state 7 6) \<and> (1::nat) < 2
   \<and> (three_line_heur = zero_heur \<or> three_line_heur = three_line_heur)
   \<and> (\<exists>x node'. minimax 2 get_legal_moves advance_state (MinimaxNode_init (initial_state 7 6))
                    1 ''x'' three_line_heur = Some (Inr (Fin x, node'))
                \<and> - 100 < x \<and> x < 100)"
proof -
  from standard_start have
    a: "all_within standard_board get_legal_moves advance_state 1 (initial_state 7 6)"
    and b: "has_moves_within get_legal_moves advance_state 1 (initial_state 7 6)"
    by simp_all
  have l: "(1::nat) < 2" by simp
  have h: "three_line_heur = zero_heur \<or> three_line_heur = three_line_heur" by simp
  from heuristic_value_bound [OF a b l h, of "''x''"] a b show ?thesis by auto
qed

section \<open>The states that a search leaves unchanged\<close>


lemma set_successors_heap_extends:
  "set_successors_heap adv s a moves succs = (succs', s') \<Longrightarrow> \<exists>new. s' = s @ new"
proof (induction moves arbitrary: s succs)
  case Nil
  then show ?case by simp
next
  case (Cons move moves)
  let ?s2 = "advance_in_place adv (s @ [s ! a]) (length s) move"
  have s2: "?s2 = s @ [adv (s ! a) move]"
    by (simp add: advance_in_place_def)
  from Cons.prems have
    "set_successors_heap adv ?s2 a moves (dict_set succs move (HeapNode_init (length s)))
       = (succs', s')"
    by (simp add: deepcopy_def Let_def)
  from Cons.IH [OF this] obtain new where "s' = ?s2 @ new" by blast
  with s2 show ?case by simp
qed

lemma eval_children_heap_extends:
  assumes "\<And>s child v child' s'. search s child = Some (Inr (v, child', s')) \<Longrightarrow> \<exists>new. s' = s @ new"
  shows "eval_children_heap search opr acc succs s = Some (Inr (acc', succs', s')) \<Longrightarrow>
         \<exists>new. s' = s @ new"
proof (induction succs arbitrary: s acc acc' succs')
  case Nil
  then show ?case by simp
next
  case (Cons kc succs)
  obtain m c where kc: "kc = (m, c)" by (cases kc)
  from Cons.prems kc obtain v c' s1 acc1 rest' where
    c: "search s c = Some (Inr (v, c', s1))"
    and r: "eval_children_heap search opr (opr acc v) succs s1 = Some (Inr (acc1, rest', s'))"
    by (auto split: option.splits sum.splits)
  from assms [OF c] obtain new1 where "s1 = s @ new1" by blast
  moreover from Cons.IH [OF r] obtain new2 where "s' = s1 @ new2" by blast
  ultimately show ?case by simp
qed

lemma minimax_heap_extends:
  "minimax_heap fuel glm adv s node depth max_role h = Some (Inr (v, node', s')) \<Longrightarrow>
   (\<exists>new. s' = s @ new) \<and> hstate node' = hstate node"
proof (induction fuel arbitrary: s node depth v node' s')
  case 0
  then show ?case by simp
next
  case (Suc fuel)
  show ?case
  proof (cases "depth = 0 \<or> is_terminal (s ! hstate node)")
    case True
    with Suc.prems show ?thesis by (auto split: sum.splits)
  next
    case False
    let ?search = "\<lambda>s' child. minimax_heap fuel glm adv s' child (depth - 1) max_role h"
    obtain succs s1 where ss: "set_successors_heap adv s (hstate node) (glm (s ! hstate node))
        (hsuccessors node) = (succs, s1)"
      by (cases "set_successors_heap adv s (hstate node) (glm (s ! hstate node))
        (hsuccessors node)")
    from set_successors_heap_extends [OF ss] obtain new1 where s1: "s1 = s @ new1" by blast
    from False Suc.prems ss obtain opr start succs' where
      ev: "eval_children_heap ?search opr start succs s1 = Some (Inr (v, succs', s'))"
      and n: "node' = HeapNode (hstate node) v succs'"
      by (auto simp: Let_def split: if_splits option.splits sum.splits)
    have "\<exists>new. s' = s1 @ new"
    proof (rule eval_children_heap_extends [OF _ ev])
      fix s child v child' s'
      assume "?search s child = Some (Inr (v, child', s'))"
      from Suc.IH [OF this] show "\<exists>new. s' = s @ new" by blast
    qed
    with s1 n show ?thesis by auto
  qed
qed

lemma valid_node_append: "valid_node s n \<Longrightarrow> valid_node (s @ new) n"
  by (induction s n rule: valid_node.induct) auto

lemma abs_node_append: "valid_node s n \<Longrightarrow> abs_node (s @ new) n = abs_node s n"
  by (induction s n rule: abs_node.induct) (auto simp: nth_append)

lemma abs_succs_append:
  "\<forall>kc \<in> set succs. valid_node s (snd kc) \<Longrightarrow> abs_succs (s @ new) succs = abs_succs s succs"
  by (simp add: abs_succs_def abs_node_append)

lemma abs_node_succs: "abs_node s node = Node (s ! hstate node) (hvalue node) (abs_succs s (hsuccessors node))"
  by (cases node) (simp add: abs_succs_def)

lemma valid_node_iff:
  "valid_node s node \<longleftrightarrow> hstate node < length s \<and> (\<forall>kc \<in> set (hsuccessors node). valid_node s (snd kc))"
  by (cases node) simp

lemma abs_succs_dict_set:
  "abs_succs s (dict_set succs k n) = dict_set (abs_succs s succs) k (abs_node s n)"
  by (induction succs) (auto simp: abs_succs_def)

lemma set_dict_set: "set (dict_set kvs k v) \<subseteq> insert (k, v) (set kvs)"
proof (induction kvs)
  case Nil
  show ?case by simp
next
  case (Cons x kvs)
  obtain a b where x: "x = (a, b)" by (cases x)
  show ?case
  proof (cases "a = k")
    case True
    with x show ?thesis by auto
  next
    case False
    with x have "set (dict_set (x # kvs) k v) = insert (a, b) (set (dict_set kvs k v))"
      by simp
    with Cons.IH x show ?thesis by auto
  qed
qed

lemma valid_dict_set:
  assumes "\<forall>kc \<in> set succs. valid_node s (snd kc)" and "valid_node s n"
  shows "\<forall>kc \<in> set (dict_set succs k n). valid_node s (snd kc)"
proof
  fix kc assume "kc \<in> set (dict_set succs k n)"
  with set_dict_set have "kc = (k, n) \<or> kc \<in> set succs" by fastforce
  with assms show "valid_node s (snd kc)" by auto
qed

lemma set_successors_heap_refines:
  assumes "a < length s"
  shows "\<forall>kc \<in> set succs. valid_node s (snd kc) \<Longrightarrow>
         set_successors_heap adv s a moves succs = (succs', s') \<Longrightarrow>
         (\<forall>kc \<in> set succs'. valid_node s' (snd kc))
         \<and> abs_succs s' succs' = set_successors adv (s ! a) moves (abs_succs s succs)"
  using assms
proof (induction moves arbitrary: s succs)
  case Nil
  then show ?case by simp
next
  case (Cons move moves)
  let ?s2 = "s @ [adv (s ! a) move]"
  let ?new = "HeapNode_init (length s)"
  have s2: "advance_in_place adv (s @ [s ! a]) (length s) move = ?s2"
    by (simp add: advance_in_place_def)
  from Cons.prems(2) s2 have run:
    "set_successors_heap adv ?s2 a moves (dict_set succs move ?new) = (succs', s')"
    by (simp add: deepcopy_def Let_def)
  have old: "\<forall>kc \<in> set succs. valid_node ?s2 (snd kc)"
    using Cons.prems(1) by (simp add: valid_node_append)
  have new: "valid_node ?s2 ?new" by (simp add: HeapNode_init_def)
  have v: "\<forall>kc \<in> set (dict_set succs move ?new). valid_node ?s2 (snd kc)"
    using old new by (rule valid_dict_set)
  have a2: "a < length ?s2" using Cons.prems(3) by simp
  have sa: "?s2 ! a = s ! a" using Cons.prems(3) by (simp add: nth_append)
  have "abs_node ?s2 ?new = MinimaxNode_init (adv (s ! a) move)"
    by (simp add: HeapNode_init_def MinimaxNode_init_def)
  then have ab: "abs_succs ?s2 (dict_set succs move ?new) =
      dict_set (abs_succs s succs) move (MinimaxNode_init (adv (s ! a) move))"
    using Cons.prems(1) by (simp add: abs_succs_dict_set abs_succs_append)
  from Cons.IH [OF v run a2] ab sa show ?case by simp
qed

lemma eval_children_heap_refines:
  assumes frame: "\<And>s child v c' s'. searchH s child = Some (Inr (v, c', s')) \<Longrightarrow>
      \<exists>new. s' = s @ new"
    and ok: "\<And>s child. valid_node s child \<Longrightarrow>
      abs_result (searchH s child) = searchP (abs_node s child)
      \<and> (\<forall>v c' s'. searchH s child = Some (Inr (v, c', s'))
            \<longrightarrow> (\<exists>new. s' = s @ new) \<and> valid_node s' c')"
  shows "\<forall>kc \<in> set succs. valid_node s (snd kc) \<Longrightarrow>
         abs_children_result (eval_children_heap searchH opr acc succs s) =
           eval_children searchP opr acc (abs_succs s succs)
         \<and> (\<forall>acc' succs' s'. eval_children_heap searchH opr acc succs s = Some (Inr (acc', succs', s'))
               \<longrightarrow> (\<forall>kc \<in> set succs'. valid_node s' (snd kc)))"
proof (induction succs arbitrary: s acc)
  case Nil
  show ?case by (simp add: abs_succs_def)
next
  case (Cons kc succs)
  obtain m c where kc: "kc = (m, c)" by (cases kc)
  from Cons.prems kc have vc: "valid_node s c" and vr: "\<forall>kc \<in> set succs. valid_node s (snd kc)"
    by simp_all
  note okc = ok [OF vc]
  from okc have eq: "searchP (abs_node s c) = abs_result (searchH s c)" by simp
  have hd: "abs_succs s (kc # succs) = (m, abs_node s c) # abs_succs s succs"
    by (simp add: abs_succs_def kc)
  show ?case
  proof (cases "searchH s c")
    case None
    with eq have "searchP (abs_node s c) = None" by simp
    with None kc hd show ?thesis by simp
  next
    case (Some r)
    show ?thesis
    proof (cases r)
      case (Inl e)
      with Some eq have "searchP (abs_node s c) = Some (Inl e)" by simp
      with Some Inl kc hd show ?thesis by simp
    next
      case (Inr t)
      obtain v c' s1 where t: "t = (v, c', s1)" by (cases t)
      with Some Inr have run: "searchH s c = Some (Inr (v, c', s1))" by simp
      with eq have p: "searchP (abs_node s c) = Some (Inr (v, abs_node s1 c'))"
        by simp
      from okc run obtain new where s1: "s1 = s @ new" and vc': "valid_node s1 c'" by blast
      have vr1: "\<forall>kc \<in> set succs. valid_node s1 (snd kc)"
        using vr s1 by (simp add: valid_node_append)
      have ar: "abs_succs s1 succs = abs_succs s succs"
        using vr s1 by (simp add: abs_succs_append)
      note IH = Cons.IH [OF vr1, of "opr acc v"]
      from IH ar have eq2: "eval_children searchP opr (opr acc v) (abs_succs s succs) =
          abs_children_result (eval_children_heap searchH opr (opr acc v) succs s1)"
        by simp
      show ?thesis
      proof (cases "eval_children_heap searchH opr (opr acc v) succs s1")
        case None
        with eq2 have "eval_children searchP opr (opr acc v) (abs_succs s succs) = None"
          by simp
        with None run p kc hd show ?thesis by simp
      next
        case (Some r2)
        note Some2 = Some
        show ?thesis
        proof (cases r2)
          case (Inl e)
          with Some2 eq2 have
            "eval_children searchP opr (opr acc v) (abs_succs s succs) = Some (Inl e)"
            by simp
          with Some2 Inl run p kc hd show ?thesis by simp
        next
          case (Inr t2)
          obtain acc' rest' s2 where t2: "t2 = (acc', rest', s2)" by (cases t2)
          with Some2 Inr have run2:
            "eval_children_heap searchH opr (opr acc v) succs s1 = Some (Inr (acc', rest', s2))"
            by simp
          with eq2 have p2:
            "eval_children searchP opr (opr acc v) (abs_succs s succs)
               = Some (Inr (acc', abs_succs s2 rest'))"
            by simp
          from IH run2 have vr2: "\<forall>kc \<in> set rest'. valid_node s2 (snd kc)" by blast
          have "\<exists>new. s2 = s1 @ new"
            by (rule eval_children_heap_extends [OF frame run2])
          then obtain new2 where s2: "s2 = s1 @ new2" by blast
          have ac: "abs_node s2 c' = abs_node s1 c'" and vc2: "valid_node s2 c'"
            using vc' s2 by (simp_all add: abs_node_append valid_node_append)
          have "abs_succs s2 ((m, c') # rest') = (m, abs_node s1 c') # abs_succs s2 rest'"
            by (simp add: abs_succs_def ac)
          with run run2 p p2 kc hd vr2 vc2 show ?thesis by simp
        qed
      qed
    qed
  qed
qed


lemma minimax_heap_refines:
  "valid_node s node \<Longrightarrow>
   abs_result (minimax_heap fuel glm adv s node depth max_role h) =
     minimax fuel glm adv (abs_node s node) depth max_role h
   \<and> (\<forall>v node' s'. minimax_heap fuel glm adv s node depth max_role h = Some (Inr (v, node', s'))
         \<longrightarrow> valid_node s' node')"
proof (induction fuel arbitrary: s node depth)
  case 0
  show ?case by simp
next
  case (Suc fuel)
  from Suc.prems valid_node_iff [of s node] have a: "hstate node < length s"
    and vs: "\<forall>kc \<in> set (hsuccessors node). valid_node s (snd kc)"
    by blast+
  have ab: "abs_node s node = Node (s ! hstate node) (hvalue node) (abs_succs s (hsuccessors node))"
    by (rule abs_node_succs)
  show ?case
  proof (cases "depth = 0 \<or> is_terminal (s ! hstate node)")
    case True
    show ?thesis
    proof (cases "h (s ! hstate node) max_role")
      case (Inl e)
      with True show ?thesis by (simp add: ab del: abs_node.simps)
    next
      case (Inr v)
      have "abs_node s (HeapNode (hstate node) v (hsuccessors node)) =
          Node (s ! hstate node) v (abs_succs s (hsuccessors node))"
        by (simp add: abs_succs_def)
      moreover have "valid_node s (HeapNode (hstate node) v (hsuccessors node))"
        using a vs by simp
      ultimately show ?thesis using True Inr by (simp add: ab)
    qed
  next
    case False
    let ?searchH = "\<lambda>s' child. minimax_heap fuel glm adv s' child (depth - 1) max_role h"
    let ?searchP = "\<lambda>child. minimax fuel glm adv child (depth - 1) max_role h"
    obtain succs s1 where ss: "set_successors_heap adv s (hstate node) (glm (s ! hstate node))
        (hsuccessors node) = (succs, s1)"
      by (cases "set_successors_heap adv s (hstate node) (glm (s ! hstate node))
        (hsuccessors node)")
    from set_successors_heap_extends [OF ss] obtain new1 where s1: "s1 = s @ new1" by blast
    from set_successors_heap_refines [OF a vs ss] have
      v1: "\<forall>kc \<in> set succs. valid_node s1 (snd kc)"
      and a1: "abs_succs s1 succs =
        set_successors adv (s ! hstate node) (glm (s ! hstate node)) (abs_succs s (hsuccessors node))"
      by simp_all
    have t1: "s1 ! hstate node = s ! hstate node" using a s1 by (simp add: nth_append)
    have frame: "\<And>s child v c' s'. ?searchH s child = Some (Inr (v, c', s')) \<Longrightarrow>
        \<exists>new. s' = s @ new"
      by (rule minimax_heap_extends [THEN conjunct1])
    have ok: "\<And>s child. valid_node s child \<Longrightarrow>
        abs_result (?searchH s child) = ?searchP (abs_node s child)
        \<and> (\<forall>v c' s'. ?searchH s child = Some (Inr (v, c', s'))
              \<longrightarrow> (\<exists>new. s' = s @ new) \<and> valid_node s' c')"
    proof -
      fix s child assume v: "valid_node s child"
      note IH = Suc.IH [OF v, of "depth - 1"]
      from IH have "abs_result (?searchH s child) = ?searchP (abs_node s child)" by (rule conjunct1)
      moreover have "\<forall>v c' s'. ?searchH s child = Some (Inr (v, c', s'))
              \<longrightarrow> (\<exists>new. s' = s @ new) \<and> valid_node s' c'"
      proof (intro allI impI conjI)
        fix v c' s' assume r: "?searchH s child = Some (Inr (v, c', s'))"
        from r show "\<exists>new. s' = s @ new" by (rule frame)
        from IH r show "valid_node s' c'" by blast
      qed
      ultimately show "abs_result (?searchH s child) = ?searchP (abs_node s child)
        \<and> (\<forall>v c' s'. ?searchH s child = Some (Inr (v, c', s'))
              \<longrightarrow> (\<exists>new. s' = s @ new) \<and> valid_node s' c')" by (rule conjI)
    qed
    have ev: "\<And>opr acc.
        abs_children_result (eval_children_heap ?searchH opr acc succs s1) =
          eval_children ?searchP opr acc (abs_succs s1 succs)
        \<and> (\<forall>acc' succs' s'. eval_children_heap ?searchH opr acc succs s1
                = Some (Inr (acc', succs', s'))
              \<longrightarrow> (\<forall>kc \<in> set succs'. valid_node s' (snd kc)))"
      by (rule eval_children_heap_refines [where searchH = ?searchH and searchP = ?searchP,
            OF frame ok v1])
    have ev1: "\<And>opr acc. eval_children ?searchP opr acc (abs_succs s1 succs) =
        abs_children_result (eval_children_heap ?searchH opr acc succs s1)"
      using ev by simp
    define opr :: "number \<Rightarrow> number \<Rightarrow> number" where
      "opr = (if turn (s ! hstate node) = max_role then max else min)"
    define start where "start = (if turn (s ! hstate node) = max_role then NegInf else PosInf)"
    have lhs: "minimax_heap (Suc fuel) glm adv s node depth max_role h =
        (case eval_children_heap ?searchH opr start succs s1 of
           None \<Rightarrow> None
         | Some (Inl e) \<Rightarrow> Some (Inl e)
         | Some (Inr (v, succs', s2)) \<Rightarrow> Some (Inr (v, HeapNode (hstate node) v succs', s2)))"
      using False ss t1 by (simp add: opr_def start_def Let_def)
    have rhs: "minimax (Suc fuel) glm adv (abs_node s node) depth max_role h =
        (case eval_children ?searchP opr start (abs_succs s1 succs) of
           None \<Rightarrow> None
         | Some (Inl e) \<Rightarrow> Some (Inl e)
         | Some (Inr (v, succs')) \<Rightarrow> Some (Inr (v, Node (s ! hstate node) v succs')))"
      using False
      by (simp add: ab a1 opr_def start_def Let_def split: option.splits sum.splits)
    show ?thesis
    proof (cases "eval_children_heap ?searchH opr start succs s1")
      case None
      with ev1 [of opr start] have "eval_children ?searchP opr start (abs_succs s1 succs) = None"
        by simp
      with None show ?thesis unfolding lhs rhs by simp
    next
      case (Some r)
      show ?thesis
      proof (cases r)
        case (Inl e)
        with Some ev1 [of opr start] have
          "eval_children ?searchP opr start (abs_succs s1 succs) = Some (Inl e)"
          by simp
        with Some Inl show ?thesis unfolding lhs rhs by simp
      next
        case (Inr t)
        obtain v succs' s2 where t: "t = (v, succs', s2)" by (cases t)
        with Some Inr have run:
          "eval_children_heap ?searchH opr start succs s1 = Some (Inr (v, succs', s2))"
          by simp
        with ev1 [of opr start] have p:
          "eval_children ?searchP opr start (abs_succs s1 succs) = Some (Inr (v, abs_succs s2 succs'))"
          by simp
        from ev [of opr start] run have v2: "\<forall>kc \<in> set succs'. valid_node s2 (snd kc)"
          by blast
        have "\<exists>new. s2 = s1 @ new"
          by (rule eval_children_heap_extends [where search = ?searchH, OF frame run])
        then obtain new2 where "s2 = s1 @ new2" by blast
        with s1 a have a2: "hstate node < length s2" and t2: "s2 ! hstate node = s ! hstate node"
          by (simp_all add: nth_append)
        have "abs_node s2 (HeapNode (hstate node) v succs') =
            Node (s ! hstate node) v (abs_succs s2 succs')"
          by (simp add: abs_succs_def t2)
        moreover have "valid_node s2 (HeapNode (hstate node) v succs')"
          using a2 v2 by simp
        ultimately show ?thesis unfolding lhs rhs run p by simp
      qed
    qed
  qed
qed


text \<open>
  Claim C9. When a call of \<open>minimax\<close> on a valid node returns, the store is the store
  before the call followed by newly allocated objects: every state object that existed
  before the call, the one of the node among them, has the contents it had. The node
  still refers to the same object; only its value and successors are new. This is so
  because each expansion step advances a fresh deep copy. Seen through the contents of
  the objects, the search on the store is the search \<open>minimax\<close> on values, and it
  returns for every depth from 0 below the fuel when the heuristic does not raise.
\<close>

theorem minimax_leaves_states_unchanged:
  assumes "valid_node s node"
  shows "(\<forall>v node' s'.
            minimax_heap fuel glm adv s node depth max_role h = Some (Inr (v, node', s'))
            \<longrightarrow> (\<exists>new. s' = s @ new) \<and> (\<forall>a < length s. s' ! a = s ! a)
                \<and> hstate node' = hstate node \<and> s' ! hstate node' = s ! hstate node)
       \<and> abs_result (minimax_heap fuel glm adv s node depth max_role h) =
           minimax fuel glm adv (abs_node s node) depth max_role h
       \<and> (0 \<le> depth \<and> nat depth < fuel \<and> returns_normally h max_role
            \<longrightarrow> (\<exists>v node' s'.
                   minimax_heap fuel glm adv s node depth max_role h = Some (Inr (v, node', s'))))"
proof (intro conjI allI impI)
  fix v node' s'
  assume r: "minimax_heap fuel glm adv s node depth max_role h = Some (Inr (v, node', s'))"
  from minimax_heap_extends [OF r] obtain new where n: "s' = s @ new"
    and h: "hstate node' = hstate node" by blast
  from n show "\<exists>new. s' = s @ new" ..
  from h show "hstate node' = hstate node" .
  from assms valid_node_iff [of s node] have "hstate node < length s" by blast
  with n h show "s' ! hstate node' = s ! hstate node" by (simp add: nth_append)
  fix a assume "a < length s"
  with n show "s' ! a = s ! a" by (simp add: nth_append)
next
  from minimax_heap_refines [OF assms]
  show "abs_result (minimax_heap fuel glm adv s node depth max_role h) =
      minimax fuel glm adv (abs_node s node) depth max_role h" by (rule conjunct1)
next
  assume "0 \<le> depth \<and> nat depth < fuel \<and> returns_normally h max_role"
  then obtain v n where "minimax fuel glm adv (abs_node s node) depth max_role h = Some (Inr (v, n))"
    using minimax_returns by blast
  with minimax_heap_refines [OF assms, of fuel glm adv depth max_role h]
  have a: "abs_result (minimax_heap fuel glm adv s node depth max_role h) = Some (Inr (v, n))"
    by simp
  show "\<exists>v node' s'. minimax_heap fuel glm adv s node depth max_role h = Some (Inr (v, node', s'))"
  proof (cases "minimax_heap fuel glm adv s node depth max_role h")
    case None
    with a show ?thesis by simp
  next
    case (Some r)
    show ?thesis
    proof (cases r)
      case (Inl e)
      with Some a show ?thesis by simp
    next
      case (Inr t)
      with Some show ?thesis by (cases t) simp
    qed
  qed
qed

theorem minimax_leaves_states_unchanged_witness:
  "valid_node [initial_state 7 6] (HeapNode_init 0)
   \<and> (\<exists>v node' s'.
         minimax_heap 2 get_legal_moves advance_state [initial_state 7 6] (HeapNode_init 0) 1 ''x''
           zero_heur = Some (Inr (v, node', s'))
       \<and> hstate node' = 0 \<and> s' ! 0 = initial_state 7 6)"
proof -
  have v: "valid_node [initial_state 7 6] (HeapNode_init 0)"
    by (simp add: HeapNode_init_def)
  note t = minimax_leaves_states_unchanged [OF v, of 2 get_legal_moves advance_state 1 "''x''"
      zero_heur]
  from t zero_heur_returns [of "''x''"] obtain v node' s' where
    r: "minimax_heap 2 get_legal_moves advance_state [initial_state 7 6] (HeapNode_init 0) 1 ''x''
          zero_heur = Some (Inr (v, node', s'))"
    by (auto simp del: minimax_heap.simps)
  with t have "hstate node' = hstate (HeapNode_init 0)"
    and "s' ! hstate node' = [initial_state 7 6] ! hstate (HeapNode_init 0)"
    by blast+
  then have "hstate node' = 0" "s' ! 0 = initial_state 7 6"
    by (simp_all add: HeapNode_init_def)
  with r v show ?thesis by blast
qed

end
